theory Spec2Isabelle
  imports Main "HOL-Library.Word" "HOL-Library.Monad_Syntax" "HOL-Library.Sublist"
begin

unbundle bit_operations_syntax

section \<open>Data model of the movement subsystem (Movement/Move.h)\<close>

type_synonym u32 = "32 word"

text \<open>
  Modelled from the spec: DDA.h is not among the sources. The lifecycle states of a move
  descriptor are those of the spec's data model (\<open>empty\<close>, \<open>provisional\<close>, \<open>frozen\<close>,
  \<open>executing\<close>); Move.h itself names \<open>DDA::DDAState::empty\<close> and \<open>DDA::frozen\<close>.
\<close>

datatype DDAState = empty | provisional | frozen | executing

text \<open>
  A move descriptor: its lifecycle state and the move it was populated from. Whatever else
  a descriptor carries (step counts, timing accumulators) lives in the record's extension.
\<close>

record 'r DDA =
  state :: DDAState
  request :: 'r

definition GetState :: "('r, 'x) DDA_scheme \<Rightarrow> DDAState" where
  "GetState d = state d"

text \<open>
  A \<open>DDA*\<close> is \<open>None\<close> for \<open>nullptr\<close> and \<open>Some i\<close> for the descriptor in slot \<open>i\<close> of the
  ring. The class \<open>Move\<close> has the members of Move.h that the inline functions read or
  write, the counters, and the ring's storage; the members no inline function touches
  (kinematics, step timer, live coordinates) are in the record's extension.
\<close>

type_synonym DDA_ptr = "nat option"

record 'r Move =
  ring :: "'r DDA list"
  currentDda :: DDA_ptr
  ddaRingAddPointer :: DDA_ptr
  ddaRingGetPointer :: DDA_ptr
  ddaRingCheckPointer :: DDA_ptr
  idleCount :: u32
  stepErrors :: u32
  scheduledMoves :: u32
  completedMoves :: u32
  numHiccups :: u32
  active :: bool

text \<open>
  Following a pointer: \<open>None\<close> when it is null or does not point into the ring (where the
  C++ has undefined behaviour).
\<close>

definition deref :: "('r, 'x) Move_scheme \<Rightarrow> DDA_ptr \<Rightarrow> 'r DDA option" where
  "deref m p =
     (case p of
        None \<Rightarrow> None
      | Some i \<Rightarrow> if i < length (ring m) then Some (ring m ! i) else None)"

subsection \<open>The inline functions of Move.h\<close>

text \<open>
  \<open>ddaRingGetPointer == ddaRingAddPointer && ddaRingAddPointer->GetState() == empty\<close>:
  the right operand of \<open>&&\<close> is evaluated, and the pointer followed, only when the cursors
  are equal.
\<close>

definition DDARingEmpty :: "('r, 'x) Move_scheme \<Rightarrow> bool option" where
  "DDARingEmpty m =
     (if ddaRingGetPointer m = ddaRingAddPointer m
      then (case deref m (ddaRingAddPointer m) of
              None \<Rightarrow> None
            | Some d \<Rightarrow> Some (GetState d = empty))
      else Some False)"

text \<open>\<open>DDARingEmpty() && currentDda == nullptr\<close>\<close>

definition NoLiveMovement :: "('r, 'x) Move_scheme \<Rightarrow> bool option" where
  "NoLiveMovement m =
     (case DDARingEmpty m of
        None \<Rightarrow> None
      | Some b \<Rightarrow> if b then Some (currentDda m = None) else Some False)"

text \<open>
  \<open>AllMovesAreFinished\<close> is not a \<open>const\<close> member: it returns its result together with
  the object it leaves behind.
\<close>

definition AllMovesAreFinished ::
  "('r, 'x) Move_scheme \<Rightarrow> (bool \<times> ('r, 'x) Move_scheme) option" where
  "AllMovesAreFinished m =
     (case NoLiveMovement m of None \<Rightarrow> None | Some b \<Rightarrow> Some (b, m))"

definition GetScheduledMoves :: "('r, 'x) Move_scheme \<Rightarrow> u32" where
  "GetScheduledMoves m = scheduledMoves m"

definition GetCompletedMoves :: "('r, 'x) Move_scheme \<Rightarrow> u32" where
  "GetCompletedMoves m = completedMoves m"

definition GetCurrentDDA :: "('r, 'x) Move_scheme \<Rightarrow> DDA_ptr" where
  "GetCurrentDDA m = currentDda m"

text \<open>\<open>scheduledMoves = completedMoves = 0\<close>\<close>

definition ResetMoveCounters :: "('r, 'x) Move_scheme \<Rightarrow> ('r, 'x) Move_scheme" where
  "ResetMoveCounters m = (m\<lparr>completedMoves := 0\<rparr>)\<lparr>scheduledMoves := 0\<rparr>"

text \<open>
  Modelled from the spec: \<open>GetAndClearHiccups\<close> is declared in Move.h and defined in
  Move.cpp, which is not among the sources. It returns the missed-deadline count and
  clears it.
\<close>

definition GetAndClearHiccups :: "('r, 'x) Move_scheme \<Rightarrow> u32 \<times> ('r, 'x) Move_scheme" where
  "GetAndClearHiccups m = (numHiccups m, m\<lparr>numHiccups := 0\<rparr>)"

text \<open>
  \<open>StartNextMove\<close>: \<open>currentDda = ddaRingGetPointer; return currentDda->Start(startTime)\<close>.
  \<open>DDA::Start\<close> is a parameter: given the start time and the descriptor it is called on,
  it yields its result and the descriptor as it leaves it. The \<open>pre(...)\<close> annotation is
  not executed, so it is not part of the function.
\<close>

definition StartNextMove ::
  "(u32 \<Rightarrow> 'r DDA \<Rightarrow> bool \<times> 'r DDA) \<Rightarrow> ('r, 'x) Move_scheme \<Rightarrow> u32
     \<Rightarrow> (bool \<times> ('r, 'x) Move_scheme) option" where
  "StartNextMove Start m startTime =
     (let m1 = m\<lparr>currentDda := ddaRingGetPointer m\<rparr> in
      case currentDda m1 of
        None \<Rightarrow> None
      | Some i \<Rightarrow>
          if i < length (ring m1)
          then (let (r, d') = Start startTime (ring m1 ! i)
                in Some (r, m1\<lparr>ring := (ring m1)[i := d']\<rparr>))
          else None)"

text \<open>
  \<open>GetStepInterval\<close>: the pointer is read once into \<open>cdda\<close>; \<open>DDA::GetStepInterval\<close> is a
  parameter.
\<close>

definition GetStepInterval ::
  "('r DDA \<Rightarrow> nat \<Rightarrow> u32 \<Rightarrow> u32) \<Rightarrow> ('r, 'x) Move_scheme \<Rightarrow> nat \<Rightarrow> u32 \<Rightarrow> u32 option" where
  "GetStepInterval ddaGetStepInterval m axis microstepShift =
     (let cdda = currentDda m in
      case cdda of
        None \<Rightarrow> Some 0
      | Some i \<Rightarrow>
          (case deref m cdda of
             None \<Rightarrow> None
           | Some d \<Rightarrow> Some (ddaGetStepInterval d axis microstepShift)))"


text \<open>
  \<open>Interrupt\<close>: \<open>if (currentDda != nullptr) { do { } while (currentDda->Step()); }\<close>.
  \<open>DDA::Step\<close> is a parameter. Since \<open>currentDda\<close> is volatile and read again before every
  call, and a step that finishes a move signals completion to the \<open>Move\<close> object, \<open>Step\<close>
  acts on the whole object: given the slot of the descriptor it is called on, it yields its
  result and the object as it leaves it. The loop may run forever, so it takes fuel: one
  unit per call of \<open>Step\<close>. Next to the final object the model returns the calls made, in
  order: the slot called and what the call returned.
\<close>

datatype 'm outcome = Returned 'm "(nat \<times> bool) list" | Fault | OutOfFuel

fun Interrupt_loop ::
  "nat \<Rightarrow> (nat \<Rightarrow> ('r, 'x) Move_scheme \<Rightarrow> bool \<times> ('r, 'x) Move_scheme)
     \<Rightarrow> ('r, 'x) Move_scheme \<Rightarrow> ('r, 'x) Move_scheme outcome" where
  "Interrupt_loop 0 Step m = OutOfFuel"
| "Interrupt_loop (Suc n) Step m =
     (case currentDda m of
        None \<Rightarrow> Fault
      | Some i \<Rightarrow>
          if i < length (ring m)
          then (let (again, m') = Step i m in
                if again
                then (case Interrupt_loop n Step m' of
                        Returned m'' cs \<Rightarrow> Returned m'' ((i, True) # cs)
                      | Fault \<Rightarrow> Fault
                      | OutOfFuel \<Rightarrow> OutOfFuel)
                else Returned m' [(i, False)])
          else Fault)"

definition Interrupt ::
  "nat \<Rightarrow> (nat \<Rightarrow> ('r, 'x) Move_scheme \<Rightarrow> bool \<times> ('r, 'x) Move_scheme)
     \<Rightarrow> ('r, 'x) Move_scheme \<Rightarrow> ('r, 'x) Move_scheme outcome" where
  "Interrupt fuel Step m =
     (if currentDda m \<noteq> None then Interrupt_loop fuel Step m else Returned m [])"

text \<open>
  \<open>first_false Step m k\<close>: started in \<open>m\<close>, the calls of \<open>Step\<close> on the current descriptor
  return true \<open>k\<close> times and false the next time.
\<close>

fun first_false ::
  "(nat \<Rightarrow> ('r, 'x) Move_scheme \<Rightarrow> bool \<times> ('r, 'x) Move_scheme)
     \<Rightarrow> ('r, 'x) Move_scheme \<Rightarrow> nat \<Rightarrow> bool" where
  "first_false Step m 0 =
     (case currentDda m of
        None \<Rightarrow> False
      | Some i \<Rightarrow> i < length (ring m) \<and> \<not> fst (Step i m))"
| "first_false Step m (Suc k) =
     (case currentDda m of
        None \<Rightarrow> False
      | Some i \<Rightarrow> i < length (ring m) \<and> fst (Step i m) \<and> first_false Step (snd (Step i m)) k)"

text \<open>\<open>n\<close> successive calls of \<open>AllMovesAreFinished\<close>, with the results in order.\<close>

fun poll :: "nat \<Rightarrow> ('r, 'x) Move_scheme \<Rightarrow> (bool list \<times> ('r, 'x) Move_scheme) option" where
  "poll 0 m = Some ([], m)"
| "poll (Suc n) m =
     (case AllMovesAreFinished m of
        None \<Rightarrow> None
      | Some (b, m') \<Rightarrow>
          (case poll n m' of
             None \<Rightarrow> None
           | Some (bs, m'') \<Rightarrow> Some (b # bs, m'')))"

subsection \<open>The ring's capacity\<close>

text \<open>
  \<open>DdaRingLength\<close> of Movement/Move.h depends on the processor the build is for; the other
  Move.h among the sources fixes it to 20.
\<close>

record build_config =
  SAM4E :: bool
  SAM4S :: bool
  SAME70 :: bool

definition DdaRingLength :: "build_config \<Rightarrow> nat" where
  "DdaRingLength cfg = (if SAM4E cfg \<or> SAM4S cfg \<or> SAME70 cfg then 30 else 20)"

definition DdaRingLength_expansion :: nat where
  "DdaRingLength_expansion = 20"

subsection \<open>The ring's operations\<close>

text \<open>
  Modelled from the spec: Move.cpp and DDA.cpp, which hold \<open>Init\<close>, \<open>DDARingAdd\<close>, the
  look-ahead, \<open>DDA::Start\<close> and \<open>CurrentMoveCompleted\<close>, are not among the sources. The
  definitions of this subsection follow the contracts of the spec's Move Ring and Step
  Scheduler: the ring is a circular array, a cursor advances to the next slot modulo the
  capacity.
\<close>

definition Init :: "build_config \<Rightarrow> 'r \<Rightarrow> 'r Move" where
  "Init cfg r0 =
     \<lparr>ring = replicate (DdaRingLength cfg) \<lparr>state = empty, request = r0\<rparr>,
      currentDda = None,
      ddaRingAddPointer = Some 0,
      ddaRingGetPointer = Some 0,
      ddaRingCheckPointer = Some 0,
      idleCount = 0, stepErrors = 0, scheduledMoves = 0, completedMoves = 0,
      numHiccups = 0, active = True\<rparr>"

definition GetNext :: "('r, 'x) Move_scheme \<Rightarrow> nat \<Rightarrow> nat" where
  "GetNext m i = (i + 1) mod length (ring m)"

text \<open>
  Modelled from the spec: \<open>TryEnqueue\<close> fails with no side effect if the slot at the add
  cursor is not \<open>empty\<close>; otherwise it populates a \<open>provisional\<close> descriptor from the request
  and advances \<open>add\<close>.
\<close>

definition TryEnqueue ::
  "('r, 'x) Move_scheme \<Rightarrow> 'r \<Rightarrow> (bool \<times> ('r, 'x) Move_scheme) option" where
  "TryEnqueue m req =
     (case ddaRingAddPointer m of
        None \<Rightarrow> None
      | Some i \<Rightarrow>
          if i < length (ring m)
          then (if GetState (ring m ! i) \<noteq> empty then Some (False, m)
                else Some (True,
                  m\<lparr>ring := (ring m)[i := (ring m ! i)\<lparr>state := provisional, request := req\<rparr>],
                    ddaRingAddPointer := Some (GetNext m i)\<rparr>))
          else None)"

text \<open>
  Modelled from the spec: the planner's forward pass freezes a descriptor once no
  predecessor can still revise it, in ring order. The scan position is the check cursor:
  a \<open>provisional\<close> descriptor under it is frozen and the cursor advances; speeds are not
  modelled.
\<close>

definition FreezeAtCheck :: "('r, 'x) Move_scheme \<Rightarrow> ('r, 'x) Move_scheme option" where
  "FreezeAtCheck m =
     (case ddaRingCheckPointer m of
        None \<Rightarrow> None
      | Some i \<Rightarrow>
          if i < length (ring m)
          then (if GetState (ring m ! i) = provisional
                then Some (m\<lparr>ring := (ring m)[i := (ring m ! i)\<lparr>state := frozen\<rparr>],
                             ddaRingCheckPointer := Some (GetNext m i)\<rparr>)
                else Some m)
          else None)"

text \<open>
  Modelled from the spec: \<open>PeekForExecution\<close> returns the descriptor at \<open>get\<close> only if its
  state is \<open>frozen\<close>.
\<close>

definition PeekForExecution :: "('r, 'x) Move_scheme \<Rightarrow> DDA_ptr option" where
  "PeekForExecution m =
     (case deref m (ddaRingGetPointer m) of
        None \<Rightarrow> None
      | Some d \<Rightarrow> Some (if GetState d = frozen then ddaRingGetPointer m else None))"

text \<open>
  Modelled from the spec: on promotion the descriptor becomes \<open>executing\<close>; whether a step
  is due at once is left open (\<open>due\<close>).
\<close>

definition DDA_Start :: "(u32 \<Rightarrow> 'r DDA \<Rightarrow> bool) \<Rightarrow> u32 \<Rightarrow> 'r DDA \<Rightarrow> bool \<times> 'r DDA" where
  "DDA_Start due startTime d = (due startTime d, d\<lparr>state := executing\<rparr>)"

text \<open>
  Modelled from the spec: with no descriptor executing, the scheduler promotes the
  descriptor \<open>PeekForExecution\<close> returns, if there is one, through \<open>StartNextMove\<close>.
\<close>

definition TryStartNextMove ::
  "(u32 \<Rightarrow> 'r DDA \<Rightarrow> bool) \<Rightarrow> ('r, 'x) Move_scheme \<Rightarrow> u32
     \<Rightarrow> (bool \<times> ('r, 'x) Move_scheme) option" where
  "TryStartNextMove due m startTime =
     (if currentDda m \<noteq> None then Some (False, m)
      else (case PeekForExecution m of
              None \<Rightarrow> None
            | Some None \<Rightarrow> Some (False, m)
            | Some (Some i) \<Rightarrow> StartNextMove (DDA_Start due) m startTime))"

text \<open>
  Modelled from the spec: \<open>Reclaim\<close> resets the descriptor at \<open>get\<close> to \<open>empty\<close> and advances
  \<open>get\<close>.
\<close>

definition Reclaim :: "('r, 'x) Move_scheme \<Rightarrow> ('r, 'x) Move_scheme option" where
  "Reclaim m =
     (case ddaRingGetPointer m of
        None \<Rightarrow> None
      | Some i \<Rightarrow>
          if i < length (ring m)
          then Some (m\<lparr>ring := (ring m)[i := (ring m ! i)\<lparr>state := empty\<rparr>],
                       ddaRingGetPointer := Some (GetNext m i)\<rparr>)
          else None)"

text \<open>
  Modelled from the spec: signalling completion increments the completed-move counter (a
  \<open>uint32_t\<close>, so the increment wraps) and clears \<open>currentDda\<close>; the slot is then reclaimed.
  With no move executing there is nothing to complete and the object is left as it is.
\<close>

definition CurrentMoveCompleted :: "('r, 'x) Move_scheme \<Rightarrow> ('r, 'x) Move_scheme option" where
  "CurrentMoveCompleted m =
     (case currentDda m of
        None \<Rightarrow> Some m
      | Some i \<Rightarrow> Reclaim (m\<lparr>completedMoves := completedMoves m + 1, currentDda := None\<rparr>))"

text \<open>
  A run of the ring: the operations applied in order, next to the requests accepted by
  \<open>TryEnqueue\<close> and the requests of the descriptors completed, each in order of occurrence.
\<close>

datatype 'r ring_op = Enqueue 'r | LookAhead | StartMove u32 | Complete | Poll | ResetCounters

record 'r ring_log =
  accepted :: "'r list"
  completed :: "'r list"

fun ring_step ::
  "(u32 \<Rightarrow> 'r DDA \<Rightarrow> bool) \<Rightarrow> 'r ring_op \<Rightarrow> ('r, 'x) Move_scheme \<times> 'r ring_log
     \<Rightarrow> (('r, 'x) Move_scheme \<times> 'r ring_log) option" where
  "ring_step due (Enqueue req) (m, l) =
     (case TryEnqueue m req of
        None \<Rightarrow> None
      | Some (ok, m') \<Rightarrow> Some (m', if ok then l\<lparr>accepted := accepted l @ [req]\<rparr> else l))"
| "ring_step due LookAhead (m, l) =
     (case FreezeAtCheck m of None \<Rightarrow> None | Some m' \<Rightarrow> Some (m', l))"
| "ring_step due (StartMove t) (m, l) =
     (case TryStartNextMove due m t of None \<Rightarrow> None | Some (r, m') \<Rightarrow> Some (m', l))"
| "ring_step due Complete (m, l) =
     (case CurrentMoveCompleted m of
        None \<Rightarrow> None
      | Some m' \<Rightarrow>
          Some (m', case deref m (currentDda m) of
                      None \<Rightarrow> l
                    | Some d \<Rightarrow> l\<lparr>completed := completed l @ [request d]\<rparr>))"
| "ring_step due Poll (m, l) =
     (case AllMovesAreFinished m of None \<Rightarrow> None | Some (b, m') \<Rightarrow> Some (m', l))"
| "ring_step due ResetCounters (m, l) = Some (ResetMoveCounters m, l)"

fun ring_run ::
  "(u32 \<Rightarrow> 'r DDA \<Rightarrow> bool) \<Rightarrow> 'r ring_op list \<Rightarrow> ('r, 'x) Move_scheme \<times> 'r ring_log
     \<Rightarrow> (('r, 'x) Move_scheme \<times> 'r ring_log) option" where
  "ring_run due [] s = Some s"
| "ring_run due (op # ops) s =
     (case ring_step due op s of None \<Rightarrow> None | Some s' \<Rightarrow> ring_run due ops s')"

subsection \<open>The occupancy of the ring\<close>

text \<open>
  Counted from the get cursor, the slots of the ring hold first the descriptors that are
  frozen (the first of them executing while a move runs), then the provisional ones, then
  the empty ones.
\<close>

definition slot_state :: "bool \<Rightarrow> nat \<Rightarrow> nat \<Rightarrow> nat \<Rightarrow> DDAState" where
  "slot_state running f k t =
     (if t < f then (if t = 0 \<and> running then executing else frozen)
      else if t < k then provisional else empty)"

text \<open>
  \<open>ring_inv m l g k f\<close>: the get cursor is at slot \<open>g\<close>; \<open>k\<close> slots from there on are
  occupied, the first \<open>f\<close> of them frozen; the add and check cursors are \<open>k\<close> and \<open>f\<close> slots
  after \<open>g\<close>; the occupied slots hold, in order, the accepted requests that have not been
  completed; and the completed requests are the first of the accepted ones.
\<close>

definition ring_inv :: "('r, 'x) Move_scheme \<Rightarrow> 'r ring_log \<Rightarrow> nat \<Rightarrow> nat \<Rightarrow> nat \<Rightarrow> bool" where
  "ring_inv m l g k f \<longleftrightarrow>
     g < length (ring m) \<and> f \<le> k \<and> k \<le> length (ring m)
     \<and> ddaRingGetPointer m = Some g
     \<and> ddaRingAddPointer m = Some ((g + k) mod length (ring m))
     \<and> ddaRingCheckPointer m = Some ((g + f) mod length (ring m))
     \<and> (currentDda m = None \<or> currentDda m = Some g \<and> 0 < f)
     \<and> (\<forall>t < length (ring m).
           state (ring m ! ((g + t) mod length (ring m)))
             = slot_state (currentDda m \<noteq> None) f k t)
     \<and> (\<forall>t < k. request (ring m ! ((g + t) mod length (ring m)))
             = accepted l ! (length (completed l) + t))
     \<and> length (accepted l) = length (completed l) + k
     \<and> take (length (completed l)) (accepted l) = completed l"

text \<open>The log before anything has happened.\<close>

definition no_log :: "'r ring_log" where
  "no_log = \<lparr>accepted = [], completed = []\<rparr>"

text \<open>
  A ring at rest: the three cursors on the same slot, every slot empty, no move executing.
\<close>

definition ring_idle :: "('r, 'x) Move_scheme \<Rightarrow> bool" where
  "ring_idle m \<longleftrightarrow>
     (case ddaRingGetPointer m of
        None \<Rightarrow> False
      | Some g \<Rightarrow> g < length (ring m)
          \<and> ddaRingAddPointer m = Some g \<and> ddaRingCheckPointer m = Some g)
     \<and> currentDda m = None
     \<and> list_all (\<lambda>d. state d = empty) (ring m)"

text \<open>A \<open>Start\<close> after which no step is due at once.\<close>

definition never_due :: "u32 \<Rightarrow> 'r DDA \<Rightarrow> bool" where
  "never_due t d = False"

section \<open>The self-test report (CommandProcessing/CommandProcessor.cpp)\<close>

text \<open>
  The status bits of the stepper drivers and the number of drivers are declared in headers
  that are not among the sources; they are parameters.
\<close>

record tmc_bits =
  TMC_RR_OT :: u32
  TMC_RR_OTPW :: u32
  TMC_RR_S2G :: u32

text \<open>C's \<open>a || b\<close> on integers: 1 if either operand is nonzero, else 0.\<close>

definition logical_or :: "u32 \<Rightarrow> u32 \<Rightarrow> u32" where
  "logical_or a b = (if a \<noteq> 0 \<or> b \<noteq> 0 then 1 else 0)"

text \<open>\<open>%u\<close>: an unsigned number in decimal.\<close>

definition digit :: "nat \<Rightarrow> char" where
  "digit n = ''0123456789'' ! (n mod 10)"

fun show_nat :: "nat \<Rightarrow> string" where
  "show_nat n = (if n < 10 then [digit n] else show_nat (n div 10) @ [digit n])"

text \<open>The reply is the list of its lines; \<open>lcatf\<close> appends a line.\<close>

definition lcatf :: "string list \<Rightarrow> string \<Rightarrow> string list" where
  "lcatf reply line = reply @ [line]"

text \<open>
  The body of the loop over the drivers: \<open>getStatus driver\<close> is what
  \<open>SmartDrivers::GetAccumulatedStatus(driver, 0xFFFFFFFF)\<close> returns.
\<close>

definition check_driver ::
  "tmc_bits \<Rightarrow> (nat \<Rightarrow> u32) \<Rightarrow> nat \<Rightarrow> string list \<times> bool \<Rightarrow> string list \<times> bool" where
  "check_driver k getStatus driver acc =
     (let stat = getStatus driver;
          acc1 = (if stat AND logical_or (TMC_RR_OT k) (TMC_RR_OTPW k) \<noteq> 0
                  then (lcatf (fst acc)
                          (''Driver '' @ show_nat driver @ '' reports over temperature''), False)
                  else acc)
      in if stat AND TMC_RR_S2G k \<noteq> 0
         then (lcatf (fst acc1)
                 (''Driver '' @ show_nat driver @ '' reports short-to-ground''), False)
         else acc1)"

text \<open>
  \<open>GenerateTestReport\<close> from the check of the driver status on. The checks before it
  compare floating-point readings; the lines they append and whether one of them failed are
  the arguments \<open>reply\<close> and \<open>testFailed\<close>. \<open>uniqueId\<close> is the text
  \<open>Platform::AppendUniqueId\<close> appends.
\<close>

definition GenerateTestReport ::
  "tmc_bits \<Rightarrow> nat \<Rightarrow> (nat \<Rightarrow> u32) \<Rightarrow> string \<Rightarrow> string list \<Rightarrow> bool \<Rightarrow> string list \<times> bool" where
  "GenerateTestReport k NumDrivers getStatus uniqueId reply testFailed =
     (let (reply1, driversOK) = fold (check_driver k getStatus) [0..<NumDrivers] (reply, True);
          reply2 = (if driversOK then lcatf reply1 ''Driver status OK'' else reply1);
          testFailed1 = (if driversOK then testFailed else True);
          reply3 = lcatf reply2
                     (if testFailed1 then ''***** ONE OR MORE CHECKS FAILED *****''
                      else ''All checks passed'')
      in (if \<not> testFailed1 then lcatf reply3 (''Board ID: '' @ uniqueId) else reply3,
          testFailed1))"

section \<open>The analog inputs (Hardware/AnalogIn.cpp)\<close>

datatype AdcState = noChannels | starting | idle | converting | ready

text \<open>
  The members of \<open>AdcClass\<close> that the enable functions read or write. A callback is a
  function pointer (\<open>None\<close> for \<open>nullptr\<close>), its parameter a 32-bit value. The arrays are
  lists of the declared lengths; the device, the DMA channels and the task to wake are in
  the record's extension.
\<close>

record AdcClass =
  numChannelsEnabled :: u32
  channelsEnabled :: u32
  adcState :: AdcState
  callbackFunctions :: "nat option list"
  callbackParams :: "u32 list"
  ticksPerCall :: "u32 list"
  ticksAtLastCall :: "u32 list"
  inputRegisters :: "u32 list"
  results :: "16 word list"
  resultsByChannel :: "16 word list"

definition NumAdcChannels :: nat where
  "NumAdcChannels = 32"

definition MaxSequenceLength :: nat where
  "MaxSequenceLength = 16"

text \<open>The register values of the device header, which is not among the sources.\<close>

record adc_regs =
  ADC_INPUTCTRL_MUXNEG_GND :: u32
  ADC_REFCTRL_REFSEL_INTVCC1 :: "8 word"
  ADC_INPUTCTRL_MUXPOS_PTAT_Val :: u32

text \<open>The object as the constructor and static initialisation leave it.\<close>

definition AdcClass_new :: AdcClass where
  "AdcClass_new =
     \<lparr>numChannelsEnabled = 0, channelsEnabled = 0, adcState = noChannels,
      callbackFunctions = replicate MaxSequenceLength None,
      callbackParams = replicate MaxSequenceLength 0,
      ticksPerCall = replicate MaxSequenceLength 0,
      ticksAtLastCall = replicate MaxSequenceLength 0,
      inputRegisters = replicate (MaxSequenceLength * 2) 0,
      results = replicate MaxSequenceLength 0,
      resultsByChannel = replicate 32 0\<rparr>"

text \<open>A write to an array element: \<open>None\<close> when the index is outside the array.\<close>

definition array_set :: "'a list \<Rightarrow> nat \<Rightarrow> 'a \<Rightarrow> 'a list option" where
  "array_set xs i v = (if i < length xs then Some (xs[i := v]) else None)"

text \<open>
  \<open>InternalEnableChannel\<close>; \<open>now\<close> is what \<open>millis()\<close> returns. The writes to the device's
  registers when the first channel is enabled, and the waits for the device to synchronise
  (taken to return), change no member but \<open>state\<close>.
\<close>

definition InternalEnableChannel ::
  "adc_regs \<Rightarrow> 'x AdcClass_scheme \<Rightarrow> u32 \<Rightarrow> 8 word \<Rightarrow> nat option \<Rightarrow> u32 \<Rightarrow> u32 \<Rightarrow> u32
     \<Rightarrow> (bool \<times> 'x AdcClass_scheme) option" where
  "InternalEnableChannel k a chan refCtrl fn param p_ticksPerCall now =
     (if chan < 32
      then do {
        cf \<leftarrow> array_set (callbackFunctions a) (unat (numChannelsEnabled a)) fn;
        cp \<leftarrow> array_set (callbackParams a) (unat (numChannelsEnabled a)) param;
        tp \<leftarrow> array_set (ticksPerCall a) (unat (numChannelsEnabled a)) p_ticksPerCall;
        ta \<leftarrow> array_set (ticksAtLastCall a) (unat (numChannelsEnabled a)) now;
        ir \<leftarrow> array_set (inputRegisters a) (unat (numChannelsEnabled a * 2))
                (ADC_INPUTCTRL_MUXNEG_GND k OR chan);
        ir' \<leftarrow> array_set ir (unat (numChannelsEnabled a * 2 + 1)) (ucast refCtrl);
        rc \<leftarrow> array_set (resultsByChannel a) (unat chan) 0;
        let a1 = a\<lparr>callbackFunctions := cf, callbackParams := cp, ticksPerCall := tp,
                    ticksAtLastCall := ta, inputRegisters := ir', resultsByChannel := rc,
                    numChannelsEnabled := numChannelsEnabled a + 1,
                    channelsEnabled := channelsEnabled a OR push_bit (unat chan) 1\<rparr>;
        Some (True, if numChannelsEnabled a1 = 1 then a1\<lparr>adcState := starting\<rparr> else a1)
      }
      else Some (False, a))"

definition EnableChannel ::
  "adc_regs \<Rightarrow> 'x AdcClass_scheme \<Rightarrow> u32 \<Rightarrow> nat option \<Rightarrow> u32 \<Rightarrow> u32 \<Rightarrow> u32
     \<Rightarrow> (bool \<times> 'x AdcClass_scheme) option" where
  "EnableChannel k a chan fn param p_ticksPerCall now =
     (if numChannelsEnabled a = of_nat MaxSequenceLength \<or> chan \<ge> of_nat MaxSequenceLength
      then Some (False, a)
      else InternalEnableChannel k a chan (ADC_REFCTRL_REFSEL_INTVCC1 k) fn param
             p_ticksPerCall now)"

definition EnableTemperatureSensor ::
  "adc_regs \<Rightarrow> 'x AdcClass_scheme \<Rightarrow> u32 \<Rightarrow> nat option \<Rightarrow> u32 \<Rightarrow> u32 \<Rightarrow> u32
     \<Rightarrow> (bool \<times> 'x AdcClass_scheme) option" where
  "EnableTemperatureSensor k a sensorNumber fn param p_ticksPerCall now =
     (if numChannelsEnabled a = of_nat MaxSequenceLength \<or> sensorNumber \<ge> 2
      then Some (False, a)
      else InternalEnableChannel k a (sensorNumber + ADC_INPUTCTRL_MUXPOS_PTAT_Val k)
             (ADC_REFCTRL_REFSEL_INTVCC1 k) fn param p_ticksPerCall now)"

text \<open>A sequence of calls of the two enable functions, with the results in order.\<close>

datatype adc_call =
  CallEnableChannel u32 "nat option" u32 u32 u32
| CallEnableTemperatureSensor u32 "nat option" u32 u32 u32

fun do_call ::
  "adc_regs \<Rightarrow> 'x AdcClass_scheme \<Rightarrow> adc_call \<Rightarrow> (bool \<times> 'x AdcClass_scheme) option" where
  "do_call k a (CallEnableChannel chan fn param t now) = EnableChannel k a chan fn param t now"
| "do_call k a (CallEnableTemperatureSensor n fn param t now) =
     EnableTemperatureSensor k a n fn param t now"

fun adc_calls ::
  "adc_regs \<Rightarrow> 'x AdcClass_scheme \<Rightarrow> adc_call list
     \<Rightarrow> (bool list \<times> 'x AdcClass_scheme) option" where
  "adc_calls k a [] = Some ([], a)"
| "adc_calls k a (c # cs) =
     (case do_call k a c of
        None \<Rightarrow> None
      | Some (r, a') \<Rightarrow>
          (case adc_calls k a' cs of
             None \<Rightarrow> None
           | Some (rs, a'') \<Rightarrow> Some (r # rs, a'')))"

text \<open>The bound on the conversion sequence, and the lengths of the arrays it protects.\<close>

definition adc_inv :: "'x AdcClass_scheme \<Rightarrow> bool" where
  "adc_inv a \<longleftrightarrow>
     unat (numChannelsEnabled a) \<le> MaxSequenceLength
     \<and> length (callbackFunctions a) = MaxSequenceLength
     \<and> length (callbackParams a) = MaxSequenceLength
     \<and> length (ticksPerCall a) = MaxSequenceLength
     \<and> length (ticksAtLastCall a) = MaxSequenceLength
     \<and> length (inputRegisters a) = MaxSequenceLength * 2
     \<and> length (resultsByChannel a) = 32"

section \<open>Sample objects\<close>

text \<open>
  A ring of two slots, both occupied, with the cursors on the same slot; and a ring of two
  empty slots.
\<close>

definition full_ring :: "nat Move" where
  "full_ring =
     \<lparr>ring = [\<lparr>state = frozen, request = 7\<rparr>, \<lparr>state = provisional, request = 8\<rparr>],
      currentDda = None,
      ddaRingAddPointer = Some 0,
      ddaRingGetPointer = Some 0,
      ddaRingCheckPointer = Some 1,
      idleCount = 0, stepErrors = 3, scheduledMoves = 2, completedMoves = 5,
      numHiccups = 4, active = True\<rparr>"

definition empty_ring :: "nat Move" where
  "empty_ring =
     \<lparr>ring = [\<lparr>state = empty, request = 0\<rparr>, \<lparr>state = empty, request = 0\<rparr>],
      currentDda = None,
      ddaRingAddPointer = Some 1,
      ddaRingGetPointer = Some 1,
      ddaRingCheckPointer = Some 1,
      idleCount = 0, stepErrors = 0, scheduledMoves = 0, completedMoves = 0,
      numHiccups = 0, active = True\<rparr>"

text \<open>The full ring with its first descriptor being executed.\<close>

definition busy_ring :: "nat Move" where
  "busy_ring =
     full_ring\<lparr>ring := [\<lparr>state = executing, request = 2\<rparr>, \<lparr>state = provisional, request = 8\<rparr>],
               currentDda := Some 0\<rparr>"

text \<open>
  A \<open>Step\<close> for which the request of a descriptor is the number of steps it has left: it
  takes one, and reports whether another is due.
\<close>

definition countdown_Step :: "nat \<Rightarrow> nat Move \<Rightarrow> bool \<times> nat Move" where
  "countdown_Step i m =
     (1 < request (ring m ! i),
      m\<lparr>ring := (ring m)[i := (ring m ! i)\<lparr>request := request (ring m ! i) - 1\<rparr>]\<rparr>)"

definition sample_regs :: adc_regs where
  "sample_regs =
     \<lparr>ADC_INPUTCTRL_MUXNEG_GND = 0x1800, ADC_REFCTRL_REFSEL_INTVCC1 = 3,
      ADC_INPUTCTRL_MUXPOS_PTAT_Val = 0x1C\<rparr>"

text \<open>An object whose conversion sequence is full.\<close>

definition full_adc :: AdcClass where
  "full_adc = AdcClass_new\<lparr>numChannelsEnabled := 16, adcState := idle\<rparr>"

definition sample_bits :: tmc_bits where
  "sample_bits = \<lparr>TMC_RR_OT = 2, TMC_RR_OTPW = 1, TMC_RR_S2G = 60\<rparr>"

text \<open>The empty ring with the completed-move counter at its largest value.\<close>

definition wrap_ring :: "nat Move" where
  "wrap_ring = empty_ring\<lparr>completedMoves := 0xFFFFFFFF\<rparr>"

text \<open>A build for the SAM4E and a build for the SAM3X.\<close>

definition sam4e_build :: build_config where
  "sam4e_build = \<lparr>SAM4E = True, SAM4S = False, SAME70 = False\<rparr>"

definition sam3x_build :: build_config where
  "sam3x_build = \<lparr>SAM4E = False, SAM4S = False, SAME70 = False\<rparr>"

section \<open>The ring-empty test\<close>

text \<open>
  C1. With a valid add cursor, the ring is reported empty exactly when the get cursor
  equals the add cursor and the descriptor at the add cursor is in state \<open>empty\<close>. Equal
  cursors alone do not make the ring empty: there is an object whose cursors are equal and
  whose ring is reported not empty.
\<close>

theorem DDARingEmpty_iff:
  assumes "deref m (ddaRingAddPointer m) = Some d"
  shows "DDARingEmpty m =
           Some (ddaRingGetPointer m = ddaRingAddPointer m \<and> GetState d = empty)
         \<and> (\<exists>m' :: nat Move. ddaRingGetPointer m' = ddaRingAddPointer m'
               \<and> DDARingEmpty m' = Some False)"
proof
  show "DDARingEmpty m =
          Some (ddaRingGetPointer m = ddaRingAddPointer m \<and> GetState d = empty)"
    using assms by (simp add: DDARingEmpty_def)
  have "ddaRingGetPointer full_ring = ddaRingAddPointer full_ring
        \<and> DDARingEmpty full_ring = Some False"
    by (simp add: full_ring_def DDARingEmpty_def deref_def GetState_def)
  then show "\<exists>m' :: nat Move. ddaRingGetPointer m' = ddaRingAddPointer m'
               \<and> DDARingEmpty m' = Some False"
    by blast
qed

theorem DDARingEmpty_iff_witness:
  "deref full_ring (ddaRingAddPointer full_ring) = Some \<lparr>state = frozen, request = 7\<rparr>
   \<and> ddaRingGetPointer full_ring = ddaRingAddPointer full_ring
   \<and> DDARingEmpty full_ring = Some False"
  using DDARingEmpty_iff [of full_ring "\<lparr>state = frozen, request = 7\<rparr>"]
  by (simp add: full_ring_def deref_def GetState_def)

section \<open>Starting the next move\<close>

text \<open>
  C2. When the descriptor at the get cursor is \<open>frozen\<close>, \<open>StartNextMove\<close> sets \<open>currentDda\<close>
  to the get cursor and returns what that descriptor's \<open>Start\<close> returns for the start time;
  the descriptor installed is the frozen one, so it is not \<open>provisional\<close>.
\<close>

theorem StartNextMove_frozen:
  assumes "deref m (ddaRingGetPointer m) = Some d" and "GetState d = frozen"
  shows "\<exists>i. ddaRingGetPointer m = Some i \<and> i < length (ring m) \<and> ring m ! i = d
           \<and> GetState d \<noteq> provisional
           \<and> StartNextMove Start m startTime =
               Some (fst (Start startTime d),
                     m\<lparr>currentDda := Some i, ring := (ring m)[i := snd (Start startTime d)]\<rparr>)"
  using assms
  by (auto simp: StartNextMove_def deref_def Let_def split: option.splits if_splits prod.splits)

theorem StartNextMove_frozen_witness:
  "deref full_ring (ddaRingGetPointer full_ring) = Some \<lparr>state = frozen, request = 7\<rparr>
   \<and> GetState \<lparr>state = frozen, request = 7::nat\<rparr> = frozen
   \<and> StartNextMove (DDA_Start (\<lambda>t d. True)) full_ring 100 =
       Some (True,
             full_ring\<lparr>currentDda := Some 0,
                       ring := [\<lparr>state = executing, request = 7\<rparr>,
                                \<lparr>state = provisional, request = 8\<rparr>]\<rparr>)"
  using StartNextMove_frozen [of full_ring "\<lparr>state = frozen, request = 7\<rparr>"
      "DDA_Start (\<lambda>t d. True)" 100]
  by (simp add: full_ring_def deref_def GetState_def DDA_Start_def)

section \<open>The step interrupt\<close>

lemma Interrupt_loop_calls:
  "Interrupt_loop n Step m = Returned m' cs \<Longrightarrow>
     cs \<noteq> [] \<and> currentDda m = Some (fst (hd cs))
     \<and> \<not> snd (last cs) \<and> (\<forall>c \<in> set (butlast cs). snd c)"
proof (induction n arbitrary: m m' cs)
  case 0
  then show ?case by simp
next
  case (Suc n)
  from Suc.prems obtain i where i: "currentDda m = Some i" "i < length (ring m)"
    by (auto split: option.splits if_splits)
  obtain again m1 where st: "Step i m = (again, m1)" by (cases "Step i m")
  show ?case
  proof (cases again)
    case False
    with Suc.prems i st show ?thesis by auto
  next
    case True
    with Suc.prems i st obtain cs' where
      r: "Interrupt_loop n Step m1 = Returned m' cs'" and cs: "cs = (i, True) # cs'"
      by (auto split: outcome.splits)
    from Suc.IH [OF r] cs i show ?thesis by auto
  qed
qed

lemma Interrupt_loop_enough:
  "first_false Step m k \<Longrightarrow> k < n \<Longrightarrow>
     \<exists>m' cs. Interrupt_loop n Step m = Returned m' cs \<and> length cs = Suc k"
proof (induction k arbitrary: m n)
  case 0
  then obtain n' where "n = Suc n'" by (cases n) auto
  with 0 show ?case by (auto split: option.splits prod.splits)
next
  case (Suc k)
  then obtain n' where n: "n = Suc n'" "k < n'" by (cases n) auto
  from Suc.prems obtain i where i: "currentDda m = Some i" "i < length (ring m)"
    "fst (Step i m)" "first_false Step (snd (Step i m)) k"
    by (auto split: option.splits)
  from Suc.IH [OF i(4) n(2)] obtain m' cs where
    "Interrupt_loop n' Step (snd (Step i m)) = Returned m' cs" "length cs = Suc k" by blast
  with i n show ?case by (auto split: prod.splits)
qed

text \<open>
  C3. With \<open>currentDda\<close> null, \<open>Interrupt\<close> returns at once, the object unchanged and \<open>Step\<close>
  not called. Otherwise, when it returns, it has called \<open>Step\<close> at least once, first on the
  descriptor \<open>currentDda\<close> pointed to, the last call returned false and every call before
  it returned true; and it does return, after
  \<open>k + 1\<close> calls, when the first call to return false is the one after \<open>k\<close> calls that
  returned true.
\<close>

theorem Interrupt_steps:
  "(currentDda m = None \<longrightarrow> Interrupt fuel Step m = Returned m [])
   \<and> (currentDda m \<noteq> None \<and> Interrupt fuel Step m = Returned m' cs \<longrightarrow>
        cs \<noteq> [] \<and> currentDda m = Some (fst (hd cs))
        \<and> \<not> snd (last cs) \<and> (\<forall>c \<in> set (butlast cs). snd c))
   \<and> (first_false Step m k \<and> k < fuel \<longrightarrow>
        (\<exists>m'' cs'. Interrupt fuel Step m = Returned m'' cs' \<and> length cs' = Suc k))"
proof (intro conjI impI)
  assume "currentDda m = None"
  then show "Interrupt fuel Step m = Returned m []" by (simp add: Interrupt_def)
next
  assume a: "currentDda m \<noteq> None \<and> Interrupt fuel Step m = Returned m' cs"
  then have "Interrupt_loop fuel Step m = Returned m' cs" by (auto simp: Interrupt_def)
  then have "cs \<noteq> [] \<and> currentDda m = Some (fst (hd cs))
      \<and> \<not> snd (last cs) \<and> (\<forall>c \<in> set (butlast cs). snd c)"
    by (rule Interrupt_loop_calls)
  then show "cs \<noteq> []" "currentDda m = Some (fst (hd cs))" "\<not> snd (last cs)"
    "\<forall>c \<in> set (butlast cs). snd c" by auto
next
  assume a: "first_false Step m k \<and> k < fuel"
  then have "currentDda m \<noteq> None" by (cases k) (auto split: option.splits)
  with a Interrupt_loop_enough [of Step m k fuel]
  show "\<exists>m'' cs'. Interrupt fuel Step m = Returned m'' cs' \<and> length cs' = Suc k"
    by (simp add: Interrupt_def)
qed

theorem Interrupt_steps_witness:
  "currentDda empty_ring = None
   \<and> Interrupt 5 countdown_Step empty_ring = Returned empty_ring []
   \<and> currentDda busy_ring \<noteq> None
   \<and> Interrupt 5 countdown_Step busy_ring =
       Returned (busy_ring\<lparr>ring := [\<lparr>state = executing, request = 0\<rparr>,
                                    \<lparr>state = provisional, request = 8\<rparr>]\<rparr>)
         [(0, True), (0, False)]
   \<and> first_false countdown_Step busy_ring 1 \<and> (1::nat) < 5"
  using Interrupt_steps [of empty_ring 5 countdown_Step]
    Interrupt_steps [of busy_ring 5 countdown_Step _ _ 1]
  by (simp add: Interrupt_def busy_ring_def full_ring_def empty_ring_def countdown_Step_def
      eval_nat_numeral)

section \<open>Polling for the end of all moves\<close>

lemma poll_same:
  "DDARingEmpty m = Some e \<Longrightarrow> poll n m = Some (replicate n (e \<and> currentDda m = None), m)"
  by (induction n) (auto simp: AllMovesAreFinished_def NoLiveMovement_def)

text \<open>
  C4. \<open>AllMovesAreFinished\<close> returns whether the ring is empty and \<open>currentDda\<close> is null, and
  leaves the object as it found it; so any number of calls in a row return that same value
  and leave the ring, the cursors, \<open>currentDda\<close> and the counters unchanged, and a ring that
  was empty is still empty afterwards.
\<close>

theorem AllMovesAreFinished_idempotent:
  assumes "DDARingEmpty m = Some e"
  shows "AllMovesAreFinished m = Some (e \<and> currentDda m = None, m)
         \<and> poll n m = Some (replicate n (e \<and> currentDda m = None), m)
         \<and> (\<exists>bs m'. poll n m = Some (bs, m') \<and> m' = m \<and> DDARingEmpty m' = Some e)"
  using assms poll_same [OF assms, of n]
  by (auto simp: AllMovesAreFinished_def NoLiveMovement_def)

theorem AllMovesAreFinished_idempotent_witness:
  "DDARingEmpty empty_ring = Some True
   \<and> AllMovesAreFinished empty_ring = Some (True, empty_ring)
   \<and> poll 3 empty_ring = Some ([True, True, True], empty_ring)"
  using AllMovesAreFinished_idempotent [of empty_ring True 3]
  by (simp add: empty_ring_def DDARingEmpty_def deref_def GetState_def eval_nat_numeral)

section \<open>Resetting the move counters\<close>

text \<open>
  C7. \<open>ResetMoveCounters\<close> sets the scheduled-move and completed-move counters to zero and
  changes nothing else: the hiccup count (and so what \<open>GetAndClearHiccups\<close> returns next),
  the step-error count, the ring, the cursors, \<open>currentDda\<close> and every other member are as
  before.
\<close>

theorem ResetMoveCounters_frame:
  "GetScheduledMoves (ResetMoveCounters m) = 0
   \<and> GetCompletedMoves (ResetMoveCounters m) = 0
   \<and> numHiccups (ResetMoveCounters m) = numHiccups m
   \<and> fst (GetAndClearHiccups (ResetMoveCounters m)) = fst (GetAndClearHiccups m)
   \<and> stepErrors (ResetMoveCounters m) = stepErrors m
   \<and> ring (ResetMoveCounters m) = ring m
   \<and> ddaRingAddPointer (ResetMoveCounters m) = ddaRingAddPointer m
   \<and> ddaRingGetPointer (ResetMoveCounters m) = ddaRingGetPointer m
   \<and> ddaRingCheckPointer (ResetMoveCounters m) = ddaRingCheckPointer m
   \<and> currentDda (ResetMoveCounters m) = currentDda m
   \<and> idleCount (ResetMoveCounters m) = idleCount m
   \<and> active (ResetMoveCounters m) = active m
   \<and> Move.more (ResetMoveCounters m) = Move.more m"
  by (simp add: ResetMoveCounters_def GetScheduledMoves_def GetCompletedMoves_def
      GetAndClearHiccups_def)

section \<open>The step interval of the current move\<close>

text \<open>
  C10. With no move executing (\<open>currentDda\<close> null) \<open>GetStepInterval\<close> returns 0, whatever
  the ring holds; otherwise it returns the step interval of the descriptor \<open>currentDda\<close>
  points to, for the axis asked for.
\<close>

theorem GetStepInterval_current:
  "(currentDda m = None \<longrightarrow>
      GetStepInterval f m axis shift = Some 0
      \<and> GetStepInterval f (m\<lparr>ring := r\<rparr>) axis shift = Some 0)
   \<and> (currentDda m = Some i \<and> i < length (ring m) \<longrightarrow>
      GetStepInterval f m axis shift = Some (f (ring m ! i) axis shift))"
  by (simp add: GetStepInterval_def deref_def)

theorem GetStepInterval_current_witness:
  "currentDda empty_ring = None
   \<and> GetStepInterval (\<lambda>d axis shift. of_nat (request d)) empty_ring 1 4 = Some 0
   \<and> GetStepInterval (\<lambda>d axis shift. of_nat (request d)) (empty_ring\<lparr>ring := []\<rparr>) 1 4 = Some 0
   \<and> currentDda busy_ring = Some 0 \<and> 0 < length (ring busy_ring)
   \<and> GetStepInterval (\<lambda>d axis shift. of_nat (request d)) busy_ring 1 4 = Some 2"
  using GetStepInterval_current [of empty_ring "\<lambda>d axis shift. of_nat (request d)" 1 4 "[]"]
    GetStepInterval_current [of busy_ring "\<lambda>d axis shift. of_nat (request d)" 1 4 _ 0]
  by (simp add: empty_ring_def busy_ring_def full_ring_def)

section \<open>The over-temperature check of the self-test report\<close>

lemma over_temperature_test_is_bit0:
  "a \<noteq> 0 \<or> b \<noteq> 0 \<Longrightarrow> (stat AND logical_or a b \<noteq> 0) = bit stat 0"
  by (auto simp: logical_or_def and_one_eq bit_0 mod2_eq_if)

lemma over_temperature_diverges:
  fixes ot otpw :: u32
  assumes "ot OR otpw \<noteq> 0" and "ot OR otpw \<noteq> 1"
  shows "((ot OR otpw) AND NOT 1) AND (ot OR otpw) \<noteq> 0
         \<and> ((ot OR otpw) AND NOT 1) AND logical_or ot otpw = 0"
proof -
  let ?M = "ot OR otpw"
  have split: "?M = (?M AND NOT 1) OR (?M AND 1)"
    by (simp add: bit_eq_iff bit_simps) blast
  have "?M AND NOT 1 \<noteq> 0"
  proof
    assume "?M AND NOT 1 = 0"
    with split have "?M = ?M AND 1" by simp
    then have "?M = 0 \<or> ?M = 1" by (metis and_one_eq mod2_eq_if of_bool_eq(1) of_bool_eq(2) odd_iff_mod_2_eq_one)
    with assms show False by simp
  qed
  moreover have "(?M AND NOT 1) AND ?M = ?M AND NOT 1"
    by (simp add: bit_eq_iff bit_simps) blast
  moreover have "(?M AND NOT 1) AND 1 = 0"
    by (simp add: and.assoc)
  then have "(?M AND NOT 1) AND logical_or ot otpw = 0"
    by (simp add: logical_or_def)
  ultimately show ?thesis by simp
qed

text \<open>
  C8. The report should name a driver as over temperature exactly when its status has the
  \<open>TMC_RR_OT\<close> or the \<open>TMC_RR_OTPW\<close> bit set. The code tests the status against
  \<open>TMC_RR_OT || TMC_RR_OTPW\<close>, which is 1: with the over-temperature bit at position 1 and
  a driver whose status has that bit set, the report says the driver status is OK and all
  checks passed.
\<close>

theorem GenerateTestReport_over_temperature_missed:
  "(2 :: u32) AND TMC_RR_OT sample_bits \<noteq> 0
   \<and> GenerateTestReport sample_bits 1 (\<lambda>driver. 2) ''0123'' [] False
       = ([''Driver status OK'', ''All checks passed'', ''Board ID: 0123''], False)"
  by (simp add: sample_bits_def GenerateTestReport_def check_driver_def logical_or_def
      lcatf_def)

section \<open>The bound on the conversion sequence\<close>

lemma adc_inv_new: "adc_inv AdcClass_new"
  by (simp add: adc_inv_def AdcClass_new_def MaxSequenceLength_def)

lemma slot_bounds:
  fixes n :: u32
  assumes "unat n \<le> 16" and "n \<noteq> 16"
  shows "unat n < 16" and "unat (n * 2) = unat n * 2" and "unat (n * 2 + 1) = unat n * 2 + 1"
    and "unat (n + 1) = unat n + 1"
proof -
  from assms show lt: "unat n < 16"
    by unat_arith
  show "unat (n * 2) = unat n * 2" using lt by (simp add: unat_word_ariths)
  show "unat (n * 2 + 1) = unat n * 2 + 1" using lt by (simp add: unat_word_ariths)
  show "unat (n + 1) = unat n + 1" using lt by (simp add: unat_word_ariths)
qed

lemma InternalEnableChannel_inv:
  assumes "adc_inv a" and "numChannelsEnabled a \<noteq> 16"
  shows "\<exists>r a'. InternalEnableChannel k a chan refCtrl fn param t now = Some (r, a') \<and> adc_inv a'"
proof (cases "chan < 32")
  case False
  with assms show ?thesis by (auto simp: InternalEnableChannel_def)
next
  case True
  then have c: "unat chan < 32" by (simp add: word_less_nat_alt)
  from assms have n: "unat (numChannelsEnabled a) \<le> 16"
    by (simp add: adc_inv_def MaxSequenceLength_def)
  note b = slot_bounds [OF n assms(2)]
  from assms(1) True c b show ?thesis
    by (auto simp: InternalEnableChannel_def array_set_def adc_inv_def MaxSequenceLength_def
        Let_def)
qed

lemma do_call_inv:
  assumes "adc_inv a"
  shows "\<exists>r a'. do_call k a c = Some (r, a') \<and> adc_inv a'"
proof (cases c)
  case (CallEnableChannel chan fn param t now)
  with assms InternalEnableChannel_inv [OF assms, of k chan] show ?thesis
    by (auto simp: EnableChannel_def MaxSequenceLength_def)
next
  case (CallEnableTemperatureSensor n fn param t now)
  with assms InternalEnableChannel_inv [OF assms, of k] show ?thesis
    by (auto simp: EnableTemperatureSensor_def MaxSequenceLength_def)
qed

lemma adc_calls_inv:
  "adc_inv a \<Longrightarrow> \<exists>rs a'. adc_calls k a cs = Some (rs, a') \<and> adc_inv a'"
proof (induction cs arbitrary: a)
  case Nil
  then show ?case by simp
next
  case (Cons c cs)
  from do_call_inv [OF Cons.prems, of k c] obtain r a1 where
    1: "do_call k a c = Some (r, a1)" "adc_inv a1" by blast
  from Cons.IH [OF 1(2)] obtain rs a2 where "adc_calls k a1 cs = Some (rs, a2)" "adc_inv a2"
    by blast
  with 1 show ?case by simp
qed

text \<open>
  C9. Every sequence of calls of \<open>EnableChannel\<close> and \<open>EnableTemperatureSensor\<close> on a new
  object runs without a write outside an array and leaves \<open>numChannelsEnabled\<close> at most
  \<open>MaxSequenceLength\<close>; and a call returns false, the object unchanged, when
  \<open>numChannelsEnabled\<close> equals \<open>MaxSequenceLength\<close> or the channel (sensor) number is out of
  range.
\<close>

theorem adc_sequence_bound:
  "(\<exists>rs a'. adc_calls k AdcClass_new cs = Some (rs, a')
       \<and> unat (numChannelsEnabled a') \<le> MaxSequenceLength \<and> MaxSequenceLength = 16)
   \<and> (numChannelsEnabled a = of_nat MaxSequenceLength \<or> chan \<ge> of_nat MaxSequenceLength \<longrightarrow>
         EnableChannel k a chan fn param t now = Some (False, a))
   \<and> (numChannelsEnabled a = of_nat MaxSequenceLength \<or> sensorNumber \<ge> 2 \<longrightarrow>
         EnableTemperatureSensor k a sensorNumber fn param t now = Some (False, a))"
proof -
  from adc_calls_inv [OF adc_inv_new, of k cs] obtain rs a' where
    "adc_calls k AdcClass_new cs = Some (rs, a')" "adc_inv a'" by blast
  then have "\<exists>rs a'. adc_calls k AdcClass_new cs = Some (rs, a')
       \<and> unat (numChannelsEnabled a') \<le> MaxSequenceLength \<and> MaxSequenceLength = 16"
    by (auto simp: adc_inv_def MaxSequenceLength_def)
  then show ?thesis
    by (simp add: EnableChannel_def EnableTemperatureSensor_def)
qed

theorem adc_sequence_bound_witness:
  "numChannelsEnabled full_adc = of_nat MaxSequenceLength
   \<and> EnableChannel sample_regs full_adc 3 (Some 1) 0 10 1000 = Some (False, full_adc)
   \<and> (2::u32) \<ge> 2
   \<and> EnableTemperatureSensor sample_regs AdcClass_new 2 (Some 1) 0 10 1000
       = Some (False, AdcClass_new)
   \<and> map_option (\<lambda>(rs, a). (rs, numChannelsEnabled a))
        (adc_calls sample_regs AdcClass_new
           [CallEnableChannel 3 (Some 1) 0 10 1000,
            CallEnableChannel 16 (Some 1) 0 10 1000,
            CallEnableTemperatureSensor 1 (Some 2) 0 10 1001])
       = Some ([True, False, True], 2)"
  using adc_sequence_bound [of sample_regs
      "[CallEnableChannel 3 (Some 1) 0 10 1000,
        CallEnableChannel 16 (Some 1) 0 10 1000,
        CallEnableTemperatureSensor 1 (Some 2) 0 10 1001]" full_adc 3 "Some 1" 0 10 1000 0]
    adc_sequence_bound [of sample_regs "[]" AdcClass_new 0 "Some 1" 0 10 1000 2]
  by (simp add: full_adc_def AdcClass_new_def MaxSequenceLength_def sample_regs_def
      EnableChannel_def EnableTemperatureSensor_def InternalEnableChannel_def array_set_def
      word_le_nat_alt word_less_nat_alt)

section \<open>The ring as a queue\<close>

lemma slot_inj:
  fixes N :: nat
  assumes "t < N" "t' < N" "(g + t) mod N = (g + t') mod N"
  shows "t = t'"
proof -
  have aux: "a = b" if "a \<le> b" "b < N" "(g + a) mod N = (g + b) mod N" for a b
  proof -
    from that have "N dvd (g + b) - (g + a)"
      using mod_eq_dvd_iff_nat [of "g + a" "g + b" N] by auto
    then have "N dvd b - a" by simp
    with that show ?thesis using nat_dvd_not_less [of "b - a" N] by (cases "b - a = 0") auto
  qed
  show ?thesis using aux [of t t'] aux [of t' t] assms by (cases "t \<le> t'") auto
qed

lemma slot_shift:
  fixes N :: nat
  shows "(Suc g mod N + t) mod N = Suc (g + t) mod N"
  by presburger

lemma slot_pred:
  fixes N :: nat
  shows "0 < k \<Longrightarrow> (Suc g mod N + k - Suc 0) mod N = (g + k) mod N"
  by (cases k) (simp_all add: slot_shift)

lemma inv_bounds:
  assumes "ring_inv m l g k f"
  shows "g < length (ring m)" and "f \<le> k" and "k \<le> length (ring m)"
    and "0 < length (ring m)"
  using assms by (auto simp: ring_inv_def)

lemma inv_cursors:
  assumes "ring_inv m l g k f"
  shows "ddaRingGetPointer m = Some g"
    and "ddaRingAddPointer m = Some ((g + k) mod length (ring m))"
    and "ddaRingCheckPointer m = Some ((g + f) mod length (ring m))"
    and "currentDda m = None \<or> currentDda m = Some g \<and> 0 < f"
  using assms by (auto simp: ring_inv_def)

lemma inv_state:
  assumes "ring_inv m l g k f" and "t < length (ring m)"
  shows "state (ring m ! ((g + t) mod length (ring m)))
           = slot_state (currentDda m \<noteq> None) f k t"
  using assms unfolding ring_inv_def by blast

lemma inv_state0:
  assumes "ring_inv m l g k f"
  shows "state (ring m ! g) = slot_state (currentDda m \<noteq> None) f k 0"
  using inv_state [OF assms, of 0] inv_bounds [OF assms] by simp

lemma inv_request:
  assumes "ring_inv m l g k f" and "t < k"
  shows "request (ring m ! ((g + t) mod length (ring m)))
           = accepted l ! (length (completed l) + t)"
  using assms unfolding ring_inv_def by blast

lemma inv_log:
  assumes "ring_inv m l g k f"
  shows "length (accepted l) = length (completed l) + k"
    and "take (length (completed l)) (accepted l) = completed l"
  using assms by (auto simp: ring_inv_def)

lemma ring_invI:
  assumes "g < length (ring m)" "f \<le> k" "k \<le> length (ring m)"
    and "ddaRingGetPointer m = Some g"
    and "ddaRingAddPointer m = Some ((g + k) mod length (ring m))"
    and "ddaRingCheckPointer m = Some ((g + f) mod length (ring m))"
    and "currentDda m = None \<or> currentDda m = Some g \<and> 0 < f"
    and "\<And>t. t < length (ring m) \<Longrightarrow>
           state (ring m ! ((g + t) mod length (ring m)))
             = slot_state (currentDda m \<noteq> None) f k t"
    and "\<And>t. t < k \<Longrightarrow> request (ring m ! ((g + t) mod length (ring m)))
             = accepted l ! (length (completed l) + t)"
    and "length (accepted l) = length (completed l) + k"
    and "take (length (completed l)) (accepted l) = completed l"
  shows "ring_inv m l g k f"
  using assms unfolding ring_inv_def by blast

lemma TryEnqueue_room:
  assumes inv: "ring_inv m l g k f" and room: "k < length (ring m)"
  shows "\<exists>m'. TryEnqueue m r = Some (True, m')
           \<and> ring_inv m' (l\<lparr>accepted := accepted l @ [r]\<rparr>) g (Suc k) f
           \<and> length (ring m') = length (ring m)
           \<and> completedMoves m' = completedMoves m
           \<and> currentDda m' = currentDda m"
proof -
  let ?N = "length (ring m)"
  let ?a = "(g + k) mod ?N"
  let ?m' = "m\<lparr>ring := (ring m)[?a := (ring m ! ?a)\<lparr>state := provisional, request := r\<rparr>],
               ddaRingAddPointer := Some (GetNext m ?a)\<rparr>"
  note b = inv_bounds [OF inv] and c = inv_cursors [OF inv] and lg = inv_log [OF inv]
  have a: "?a < ?N" using b by simp
  have "state (ring m ! ?a) = empty"
    using inv_state [OF inv room] b by (simp add: slot_state_def)
  with a c have 1: "TryEnqueue m r = Some (True, ?m')"
    by (simp add: TryEnqueue_def GetState_def)
  have nxt: "GetNext m ?a = (g + Suc k) mod ?N"
    by (simp add: GetNext_def mod_Suc_eq)
  have "ring_inv ?m' (l\<lparr>accepted := accepted l @ [r]\<rparr>) g (Suc k) f"
  proof (rule ring_invI)
    fix t assume t: "t < length (ring ?m')"
    show "state (ring ?m' ! ((g + t) mod length (ring ?m')))
            = slot_state (currentDda ?m' \<noteq> None) f (Suc k) t"
    proof (cases "t = k")
      case True
      with a b show ?thesis by (simp add: slot_state_def)
    next
      case False
      with t room have "(g + t) mod ?N \<noteq> ?a" using slot_inj [of t ?N k g] by auto
      with inv_state [OF inv, of t] t False show ?thesis by (auto simp: slot_state_def)
    qed
  next
    fix t assume t: "t < Suc k"
    show "request (ring ?m' ! ((g + t) mod length (ring ?m')))
            = accepted (l\<lparr>accepted := accepted l @ [r]\<rparr>)
                ! (length (completed (l\<lparr>accepted := accepted l @ [r]\<rparr>)) + t)"
    proof (cases "t = k")
      case True
      with a lg show ?thesis by (simp add: nth_append)
    next
      case False
      with t room have "(g + t) mod ?N \<noteq> ?a" using slot_inj [of t ?N k g] by auto
      with inv_request [OF inv, of t] t False lg show ?thesis by (simp add: nth_append)
    qed
  qed (use b c lg room nxt in simp_all)
  with 1 show ?thesis by simp
qed

lemma TryEnqueue_full:
  assumes inv: "ring_inv m l g k f" and full: "k = length (ring m)"
  shows "TryEnqueue m r = Some (False, m)"
proof -
  note b = inv_bounds [OF inv] and c = inv_cursors [OF inv]
  have "state (ring m ! g) \<noteq> empty"
    using inv_state0 [OF inv] b full by (simp add: slot_state_def)
  with b c full show ?thesis
    by (simp add: TryEnqueue_def GetState_def)
qed

lemma FreezeAtCheck_provisional:
  assumes inv: "ring_inv m l g k f" and prov: "f < k"
  shows "\<exists>m'. FreezeAtCheck m = Some m'
           \<and> ring_inv m' l g k (Suc f)
           \<and> length (ring m') = length (ring m)
           \<and> completedMoves m' = completedMoves m
           \<and> currentDda m' = currentDda m"
proof -
  let ?N = "length (ring m)"
  let ?c = "(g + f) mod ?N"
  let ?m' = "m\<lparr>ring := (ring m)[?c := (ring m ! ?c)\<lparr>state := frozen\<rparr>],
               ddaRingCheckPointer := Some (GetNext m ?c)\<rparr>"
  note b = inv_bounds [OF inv] and c = inv_cursors [OF inv] and lg = inv_log [OF inv]
  have cN: "?c < ?N" using b by simp
  from b prov have fN: "f < ?N" by simp
  have "state (ring m ! ?c) = provisional"
    using inv_state [OF inv fN] prov by (simp add: slot_state_def)
  with cN c have 1: "FreezeAtCheck m = Some ?m'"
    by (simp add: FreezeAtCheck_def GetState_def)
  have nxt: "GetNext m ?c = (g + Suc f) mod ?N"
    by (simp add: GetNext_def mod_Suc_eq)
  have "ring_inv ?m' l g k (Suc f)"
  proof (rule ring_invI)
    fix t assume t: "t < length (ring ?m')"
    show "state (ring ?m' ! ((g + t) mod length (ring ?m')))
            = slot_state (currentDda ?m' \<noteq> None) (Suc f) k t"
    proof (cases "t = f")
      case True
      with cN c show ?thesis by (auto simp: slot_state_def)
    next
      case False
      with t fN have "(g + t) mod ?N \<noteq> ?c" using slot_inj [of t ?N f g] by auto
      with inv_state [OF inv, of t] t False show ?thesis by (auto simp: slot_state_def)
    qed
  next
    fix t assume t: "t < k"
    show "request (ring ?m' ! ((g + t) mod length (ring ?m')))
            = accepted l ! (length (completed l) + t)"
      using inv_request [OF inv t] cN
      by (cases "(g + t) mod ?N = ?c") simp_all
  qed (use b c lg prov nxt in auto)
  with 1 show ?thesis by simp
qed

lemma FreezeAtCheck_nothing:
  assumes inv: "ring_inv m l g k f" and none: "f = k"
  shows "FreezeAtCheck m = Some m"
proof -
  let ?N = "length (ring m)"
  note b = inv_bounds [OF inv] and c = inv_cursors [OF inv]
  have "state (ring m ! ((g + f) mod ?N)) \<noteq> provisional"
  proof (cases "k < ?N")
    case True
    with inv_state [OF inv, of k] none show ?thesis by (simp add: slot_state_def)
  next
    case False
    with b none have fN: "f = ?N" by simp
    with inv_state0 [OF inv] b show ?thesis by (auto simp: slot_state_def)
  qed
  with b c show ?thesis
    by (simp add: FreezeAtCheck_def GetState_def)
qed

lemma TryStartNextMove_busy:
  "currentDda m \<noteq> None \<Longrightarrow> TryStartNextMove due m t = Some (False, m)"
  by (simp add: TryStartNextMove_def)

lemma TryStartNextMove_promotes:
  assumes inv: "ring_inv m l g k f" and idle: "currentDda m = None" and fr: "0 < f"
  shows "\<exists>r m'. TryStartNextMove due m t = Some (r, m')
           \<and> ring_inv m' l g k f
           \<and> length (ring m') = length (ring m)
           \<and> completedMoves m' = completedMoves m
           \<and> currentDda m' = Some g"
proof -
  let ?N = "length (ring m)"
  let ?m' = "m\<lparr>currentDda := Some g, ring := (ring m)[g := (ring m ! g)\<lparr>state := executing\<rparr>]\<rparr>"
  note b = inv_bounds [OF inv] and c = inv_cursors [OF inv] and lg = inv_log [OF inv]
  have s0: "state (ring m ! g) = frozen"
    using inv_state0 [OF inv] idle fr by (simp add: slot_state_def)
  with b c idle have 1: "TryStartNextMove due m t = Some (due t (ring m ! g), ?m')"
    by (simp add: TryStartNextMove_def PeekForExecution_def deref_def GetState_def
        StartNextMove_def DDA_Start_def)
  have "ring_inv ?m' l g k f"
  proof (rule ring_invI)
    fix j assume j: "j < length (ring ?m')"
    show "state (ring ?m' ! ((g + j) mod length (ring ?m')))
            = slot_state (currentDda ?m' \<noteq> None) f k j"
    proof (cases "j = 0")
      case True
      with b fr show ?thesis by (simp add: slot_state_def)
    next
      case False
      with j b have "(g + j) mod ?N \<noteq> g" using slot_inj [of j ?N 0 g] by auto
      with inv_state [OF inv, of j] j False idle show ?thesis by (auto simp: slot_state_def)
    qed
  next
    fix j assume j: "j < k"
    show "request (ring ?m' ! ((g + j) mod length (ring ?m')))
            = accepted l ! (length (completed l) + j)"
      using inv_request [OF inv j] b
      by (cases "(g + j) mod ?N = g") simp_all
  qed (use b c lg fr in auto)
  with 1 show ?thesis by simp
qed

lemma TryStartNextMove_not_frozen:
  assumes inv: "ring_inv m l g k f" and idle: "currentDda m = None" and fr: "f = 0"
  shows "TryStartNextMove due m t = Some (False, m)"
proof -
  note b = inv_bounds [OF inv] and c = inv_cursors [OF inv]
  have s0: "state (ring m ! g) \<noteq> frozen"
    using inv_state0 [OF inv] idle fr by (simp add: slot_state_def)
  with b c idle show ?thesis
    by (simp add: TryStartNextMove_def PeekForExecution_def deref_def GetState_def)
qed

lemma CurrentMoveCompleted_idle:
  "currentDda m = None \<Longrightarrow> CurrentMoveCompleted m = Some m"
  by (simp add: CurrentMoveCompleted_def)

lemma CurrentMoveCompleted_running:
  assumes inv: "ring_inv m l g k f" and run: "currentDda m \<noteq> None"
  shows "\<exists>m'. CurrentMoveCompleted m = Some m'
           \<and> deref m (currentDda m) = Some (ring m ! g)
           \<and> request (ring m ! g) = accepted l ! length (completed l)
           \<and> ring_inv m' (l\<lparr>completed := completed l @ [request (ring m ! g)]\<rparr>)
                ((g + 1) mod length (ring m)) (k - 1) (f - 1)
           \<and> 0 < f
           \<and> length (ring m') = length (ring m)
           \<and> completedMoves m' = completedMoves m + 1
           \<and> currentDda m' = None"
proof -
  let ?N = "length (ring m)"
  let ?g' = "(g + 1) mod ?N"
  let ?l' = "l\<lparr>completed := completed l @ [request (ring m ! g)]\<rparr>"
  let ?m' = "m\<lparr>completedMoves := completedMoves m + 1, currentDda := None,
               ring := (ring m)[g := (ring m ! g)\<lparr>state := empty\<rparr>],
               ddaRingGetPointer := Some ?g'\<rparr>"
  note b = inv_bounds [OF inv] and c = inv_cursors [OF inv] and lg = inv_log [OF inv]
  from c run have cur: "currentDda m = Some g" and f: "0 < f" by auto
  with b have k: "0 < k" by simp
  from cur b c have 1: "CurrentMoveCompleted m = Some ?m'"
    by (simp add: CurrentMoveCompleted_def Reclaim_def GetNext_def)
  from cur b have 2: "deref m (currentDda m) = Some (ring m ! g)"
    by (simp add: deref_def)
  have 3: "request (ring m ! g) = accepted l ! length (completed l)"
    using inv_request [OF inv k] b by simp
  have "ring_inv ?m' ?l' ?g' (k - 1) (f - 1)"
  proof (rule ring_invI)
    fix t assume t: "t < length (ring ?m')"
    show "state (ring ?m' ! ((?g' + t) mod length (ring ?m')))
            = slot_state (currentDda ?m' \<noteq> None) (f - 1) (k - 1) t"
    proof (cases "Suc t < ?N")
      case True
      then have "(g + Suc t) mod ?N \<noteq> g" using slot_inj [of "Suc t" ?N 0 g] b by auto
      with inv_state [OF inv True] show ?thesis
        by (auto simp: slot_shift slot_state_def)
    next
      case False
      with t have tN: "Suc t = ?N" by simp
      then have w: "Suc (g + t) mod ?N = g" using b by (simp flip: add_Suc_right)
      from t tN f k b have "\<not> t < k - 1" "\<not> t < f - 1" by auto
      with b w show ?thesis by (simp add: slot_shift slot_state_def)
    qed
  next
    fix t assume t: "t < k - 1"
    then have t': "Suc t < k" by simp
    with b have "(g + Suc t) mod ?N \<noteq> g" using slot_inj [of "Suc t" ?N 0 g] by auto
    with inv_request [OF inv t']
    show "request (ring ?m' ! ((?g' + t) mod length (ring ?m')))
            = accepted ?l' ! (length (completed ?l') + t)"
      by (simp add: slot_shift)
  next
    show "take (length (completed ?l')) (accepted ?l') = completed ?l'"
      using lg k 3 by (simp add: take_Suc_conv_app_nth)
  next
    show "ddaRingAddPointer ?m' = Some ((?g' + (k - 1)) mod length (ring ?m'))"
      using c k by (simp add: slot_pred)
  next
    show "ddaRingCheckPointer ?m' = Some ((?g' + (f - 1)) mod length (ring ?m'))"
      using c f by (simp add: slot_pred)
  qed (use b c lg f k in auto)
  with 1 2 3 f show ?thesis by simp
qed

lemma AllMovesAreFinished_inv:
  assumes inv: "ring_inv m l g k f"
  shows "\<exists>b. AllMovesAreFinished m = Some (b, m)"
proof -
  note b = inv_bounds [OF inv] and c = inv_cursors [OF inv]
  from b c show ?thesis
    by (auto simp: AllMovesAreFinished_def NoLiveMovement_def DDARingEmpty_def deref_def)
qed

lemma ring_step_inv:
  assumes inv: "ring_inv m l g k f"
  shows "\<exists>m' l' g' k' f'. ring_step due op (m, l) = Some (m', l')
           \<and> ring_inv m' l' g' k' f'
           \<and> length (ring m') = length (ring m)
           \<and> (op \<noteq> ResetCounters \<longrightarrow>
                completedMoves m' + of_nat (length (completed l))
                  = completedMoves m + of_nat (length (completed l')))"
proof (cases op)
  case (Enqueue r)
  show ?thesis
  proof (cases "k < length (ring m)")
    case True
    from TryEnqueue_room [OF inv True, of r] Enqueue show ?thesis by fastforce
  next
    case False
    with inv_bounds [OF inv] have "k = length (ring m)" by simp
    from TryEnqueue_full [OF inv this, of r] Enqueue inv show ?thesis by fastforce
  qed
next
  case LookAhead
  show ?thesis
  proof (cases "f < k")
    case True
    from FreezeAtCheck_provisional [OF inv True] LookAhead show ?thesis by fastforce
  next
    case False
    with inv_bounds [OF inv] have "f = k" by simp
    from FreezeAtCheck_nothing [OF inv this] LookAhead inv show ?thesis by fastforce
  qed
next
  case (StartMove t)
  show ?thesis
  proof (cases "currentDda m = None")
    case False
    from TryStartNextMove_busy [OF False, of due t] StartMove inv show ?thesis by fastforce
  next
    case True
    show ?thesis
    proof (cases "0 < f")
      case f: True
      from TryStartNextMove_promotes [OF inv True f, of due t] StartMove show ?thesis by fastforce
    next
      case False
      then have "f = 0" by simp
      from TryStartNextMove_not_frozen [OF inv True this, of due t] StartMove inv
      show ?thesis by fastforce
    qed
  qed
next
  case Complete
  show ?thesis
  proof (cases "currentDda m = None")
    case True
    from CurrentMoveCompleted_idle [OF True] True Complete inv show ?thesis
      by (fastforce simp: deref_def)
  next
    case False
    from CurrentMoveCompleted_running [OF inv False] obtain m' where
      m': "CurrentMoveCompleted m = Some m'"
        "deref m (currentDda m) = Some (ring m ! g)"
        "ring_inv m' (l\<lparr>completed := completed l @ [request (ring m ! g)]\<rparr>)
            ((g + 1) mod length (ring m)) (k - 1) (f - 1)"
        "length (ring m') = length (ring m)"
        "completedMoves m' = completedMoves m + 1"
      by blast
    have "ring_step due op (m, l)
            = Some (m', l\<lparr>completed := completed l @ [request (ring m ! g)]\<rparr>)"
      using Complete m'(1,2) by simp
    with m'(3,4,5) show ?thesis
      by (intro exI conjI) (assumption | simp)+
  qed
next
  case Poll
  from AllMovesAreFinished_inv [OF inv] Poll inv show ?thesis by fastforce
next
  case ResetCounters
  have "ring_inv (ResetMoveCounters m) l g k f"
    using inv by (simp add: ring_inv_def ResetMoveCounters_def)
  with ResetCounters show ?thesis
    by (fastforce simp: ResetMoveCounters_def)
qed


lemma ring_run_inv:
  assumes "ring_inv m l g k f"
  shows "\<exists>m' l' g' k' f'. ring_run due ops (m, l) = Some (m', l')
           \<and> ring_inv m' l' g' k' f'
           \<and> length (ring m') = length (ring m)
           \<and> (ResetCounters \<notin> set ops \<longrightarrow>
                completedMoves m' + of_nat (length (completed l))
                  = completedMoves m + of_nat (length (completed l')))"
  using assms
proof (induction ops arbitrary: m l g k f)
  case Nil
  then show ?case by auto
next
  case (Cons op ops)
  from ring_step_inv [OF Cons.prems, of due op] obtain m1 l1 g1 k1 f1 where
    1: "ring_step due op (m, l) = Some (m1, l1)" "ring_inv m1 l1 g1 k1 f1"
       "length (ring m1) = length (ring m)"
       "op \<noteq> ResetCounters \<longrightarrow>
          completedMoves m1 + of_nat (length (completed l))
            = completedMoves m + of_nat (length (completed l1))"
    by blast
  from Cons.IH [OF 1(2)] obtain m2 l2 g2 k2 f2 where
    2: "ring_run due ops (m1, l1) = Some (m2, l2)" "ring_inv m2 l2 g2 k2 f2"
       "length (ring m2) = length (ring m1)"
       "ResetCounters \<notin> set ops \<longrightarrow>
          completedMoves m2 + of_nat (length (completed l1))
            = completedMoves m1 + of_nat (length (completed l2))"
    by blast
  have "ResetCounters \<notin> set (op # ops) \<longrightarrow>
          completedMoves m2 + of_nat (length (completed l))
            = completedMoves m + of_nat (length (completed l2))"
  proof
    assume "ResetCounters \<notin> set (op # ops)"
    with 1(4) 2(4) have
      a: "completedMoves m1 + of_nat (length (completed l))
            = completedMoves m + of_nat (length (completed l1))" and
      b: "completedMoves m2 + of_nat (length (completed l1))
            = completedMoves m1 + of_nat (length (completed l2))"
      by auto
    from a have "completedMoves m1
        = completedMoves m + of_nat (length (completed l1)) - of_nat (length (completed l))"
      by (simp add: algebra_simps)
    with b show "completedMoves m2 + of_nat (length (completed l))
            = completedMoves m + of_nat (length (completed l2))"
      by (simp add: algebra_simps)
  qed
  with 1 2 show ?case by auto
qed

lemma ring_run_append:
  "ring_run due (xs @ ys) s =
     (case ring_run due xs s of None \<Rightarrow> None | Some s' \<Rightarrow> ring_run due ys s')"
  by (induction xs arbitrary: s) (auto split: option.splits)

lemma Init_inv:
  "ring_inv (Init cfg r0) \<lparr>accepted = [], completed = []\<rparr> 0 0 0"
  by (simp add: ring_inv_def Init_def DdaRingLength_def slot_state_def)

lemma enqueue_all:
  assumes "ring_inv m l g k f" and "k + length ms \<le> length (ring m)"
  shows "\<exists>m'. ring_run due (map Enqueue ms) (m, l) = Some (m', l\<lparr>accepted := accepted l @ ms\<rparr>)
           \<and> ring_inv m' (l\<lparr>accepted := accepted l @ ms\<rparr>) g (k + length ms) f
           \<and> length (ring m') = length (ring m)
           \<and> completedMoves m' = completedMoves m"
  using assms
proof (induction ms arbitrary: m l k)
  case Nil
  then show ?case by simp
next
  case (Cons r ms)
  from Cons.prems have room: "k < length (ring m)" by simp
  from TryEnqueue_room [OF Cons.prems(1) room, of r] obtain m1 where
    1: "TryEnqueue m r = Some (True, m1)"
       "ring_inv m1 (l\<lparr>accepted := accepted l @ [r]\<rparr>) g (Suc k) f"
       "length (ring m1) = length (ring m)" "completedMoves m1 = completedMoves m"
    by blast
  from Cons.prems 1(3) have "Suc k + length ms \<le> length (ring m1)" by simp
  from Cons.IH [OF 1(2) this] obtain m2 where
    2: "ring_run due (map Enqueue ms) (m1, l\<lparr>accepted := accepted l @ [r]\<rparr>)
          = Some (m2, l\<lparr>accepted := accepted l @ [r]\<rparr>
                       \<lparr>accepted := accepted (l\<lparr>accepted := accepted l @ [r]\<rparr>) @ ms\<rparr>)"
       "ring_inv m2 (l\<lparr>accepted := accepted l @ [r]\<rparr>
                       \<lparr>accepted := accepted (l\<lparr>accepted := accepted l @ [r]\<rparr>) @ ms\<rparr>)
          g (Suc k + length ms) f"
       "length (ring m2) = length (ring m1)" "completedMoves m2 = completedMoves m1"
    by blast
  with 1 show ?case by simp
qed

lemma one_cycle:
  assumes inv: "ring_inv m l g k 0" and k: "0 < k"
  shows "\<exists>m'. ring_run due [LookAhead, StartMove t, Complete] (m, l)
             = Some (m', l\<lparr>completed := completed l @ [accepted l ! length (completed l)]\<rparr>)
           \<and> ring_inv m' (l\<lparr>completed := completed l @ [accepted l ! length (completed l)]\<rparr>)
               ((g + 1) mod length (ring m)) (k - 1) 0
           \<and> length (ring m') = length (ring m)
           \<and> completedMoves m' = completedMoves m + 1"
proof -
  from inv_cursors(4) [OF inv] have idle: "currentDda m = None" by simp
  from FreezeAtCheck_provisional [OF inv k] idle obtain m1 where
    1: "FreezeAtCheck m = Some m1" "ring_inv m1 l g k (Suc 0)"
       "length (ring m1) = length (ring m)" "completedMoves m1 = completedMoves m"
       "currentDda m1 = None"
    by auto
  from TryStartNextMove_promotes [OF 1(2) 1(5), of due t] obtain r m2 where
    2: "TryStartNextMove due m1 t = Some (r, m2)" "ring_inv m2 l g k (Suc 0)"
       "length (ring m2) = length (ring m1)" "completedMoves m2 = completedMoves m1"
       "currentDda m2 = Some g"
    by auto
  from 2(5) have run: "currentDda m2 \<noteq> None" by simp
  from CurrentMoveCompleted_running [OF 2(2) run] obtain m3 where
    3: "CurrentMoveCompleted m2 = Some m3"
       "deref m2 (currentDda m2) = Some (ring m2 ! g)"
       "request (ring m2 ! g) = accepted l ! length (completed l)"
       "ring_inv m3 (l\<lparr>completed := completed l @ [request (ring m2 ! g)]\<rparr>)
          ((g + 1) mod length (ring m2)) (k - 1) (Suc 0 - 1)"
       "length (ring m3) = length (ring m2)" "completedMoves m3 = completedMoves m2 + 1"
    by blast
  from 1 2 3 show ?thesis by simp
qed

lemma slot_surj:
  fixes N :: nat
  assumes "g < N" and "i < N"
  shows "\<exists>t<N. (g + t) mod N = i"
proof (intro exI conjI)
  show "(i + N - g) mod N < N" using assms by simp
  have "(g + (i + N - g) mod N) mod N = (g + (i + N - g)) mod N"
    by (simp add: mod_add_right_eq)
  also have "g + (i + N - g) = i + N" using assms by simp
  also have "(i + N) mod N = i" using assms by simp
  finally show "(g + (i + N - g) mod N) mod N = i" .
qed

lemma ring_idle_inv:
  assumes "ring_idle m"
  shows "\<exists>g. ring_inv m no_log g 0 0"
proof -
  from assms obtain g where g: "ddaRingGetPointer m = Some g" "g < length (ring m)"
    "ddaRingAddPointer m = Some g" "ddaRingCheckPointer m = Some g"
    by (auto simp: ring_idle_def split: option.splits)
  from assms have e: "\<And>i. i < length (ring m) \<Longrightarrow> state (ring m ! i) = empty"
    by (simp add: ring_idle_def list_all_length)
  from assms have "currentDda m = None" by (simp add: ring_idle_def)
  moreover from g have "0 < length (ring m)" by auto
  then have "(g + t) mod length (ring m) < length (ring m)" for t by simp
  ultimately have "ring_inv m no_log g 0 0"
    using g e by (simp add: ring_inv_def no_log_def slot_state_def)
  then show ?thesis ..
qed

lemma Init_idle: "ring_idle (Init cfg r0)"
  by (simp add: ring_idle_def Init_def DdaRingLength_def list_all_length)

lemma cycles:
  assumes "ring_inv m l g n 0"
  shows "\<exists>m' g'. ring_run due (concat (replicate n [LookAhead, StartMove t, Complete])) (m, l)
             = Some (m', l\<lparr>completed := accepted l\<rparr>)
           \<and> ring_inv m' (l\<lparr>completed := accepted l\<rparr>) g' 0 0
           \<and> length (ring m') = length (ring m)
           \<and> completedMoves m' = completedMoves m + of_nat n"
  using assms
proof (induction n arbitrary: m l g)
  case 0
  from inv_log [OF 0] have "l\<lparr>completed := accepted l\<rparr> = l" by simp
  with 0 show ?case by auto
next
  case (Suc n)
  let ?l1 = "l\<lparr>completed := completed l @ [accepted l ! length (completed l)]\<rparr>"
  from one_cycle [OF Suc.prems, of due t] obtain m1 where
    1: "ring_run due [LookAhead, StartMove t, Complete] (m, l) = Some (m1, ?l1)"
       "ring_inv m1 ?l1 ((g + 1) mod length (ring m)) n 0"
       "length (ring m1) = length (ring m)" "completedMoves m1 = completedMoves m + 1"
    by auto
  from Suc.IH [OF 1(2)] obtain m2 g2 where
    2: "ring_run due (concat (replicate n [LookAhead, StartMove t, Complete])) (m1, ?l1)
          = Some (m2, ?l1\<lparr>completed := accepted ?l1\<rparr>)"
       "ring_inv m2 (?l1\<lparr>completed := accepted ?l1\<rparr>) g2 0 0"
       "length (ring m2) = length (ring m1)" "completedMoves m2 = completedMoves m1 + of_nat n"
    by blast
  have "ring_run due (concat (replicate (Suc n) [LookAhead, StartMove t, Complete])) (m, l)
          = ring_run due (concat (replicate n [LookAhead, StartMove t, Complete])) (m1, ?l1)"
    using 1(1) ring_run_append [of due "[LookAhead, StartMove t, Complete]"
        "concat (replicate n [LookAhead, StartMove t, Complete])" "(m, l)"]
    by simp
  with 1 2 show ?case by (auto simp: algebra_simps)
qed

lemma batch:
  assumes idle: "ring_idle m" and len: "length ms \<le> length (ring m)"
  shows "\<exists>m'. ring_run due
                 (map Enqueue ms @ concat (replicate (length ms) [LookAhead, StartMove t, Complete]))
                 (m, no_log)
             = Some (m', \<lparr>accepted = ms, completed = ms\<rparr>)
           \<and> ring_idle m'
           \<and> length (ring m') = length (ring m)
           \<and> completedMoves m' = completedMoves m + of_nat (length ms)"
proof -
  from ring_idle_inv [OF idle] obtain g where inv: "ring_inv m no_log g 0 0" ..
  let ?l1 = "no_log\<lparr>accepted := accepted no_log @ ms\<rparr>"
  from enqueue_all [OF inv, of ms due] len obtain m1 where
    1: "ring_run due (map Enqueue ms) (m, no_log) = Some (m1, ?l1)"
       "ring_inv m1 ?l1 g (0 + length ms) 0"
       "length (ring m1) = length (ring m)" "completedMoves m1 = completedMoves m"
    by auto
  from 1(2) have "ring_inv m1 ?l1 g (length ms) 0" by simp
  from cycles [OF this, of due t] obtain m2 g2 where
    2: "ring_run due (concat (replicate (length ms) [LookAhead, StartMove t, Complete])) (m1, ?l1)
          = Some (m2, ?l1\<lparr>completed := accepted ?l1\<rparr>)"
       "ring_inv m2 (?l1\<lparr>completed := accepted ?l1\<rparr>) g2 0 0"
       "length (ring m2) = length (ring m1)"
       "completedMoves m2 = completedMoves m1 + of_nat (length ms)"
    by blast
  have l: "?l1\<lparr>completed := accepted ?l1\<rparr> = \<lparr>accepted = ms, completed = ms\<rparr>"
    by (simp add: no_log_def)
  have "ring_idle m2"
  proof -
    note b = inv_bounds [OF 2(2)] and c = inv_cursors [OF 2(2)]
    have "state (ring m2 ! i) = empty" if "i < length (ring m2)" for i
    proof -
      from slot_surj [OF b(1) that] obtain j where
        j: "j < length (ring m2)" "(g2 + j) mod length (ring m2) = i" by blast
      with inv_state [OF 2(2) j(1)] show ?thesis by (simp add: slot_state_def)
    qed
    with b c show ?thesis by (simp add: ring_idle_def list_all_length)
  qed
  with 1 2 l show ?thesis
    by (simp add: ring_run_append)
qed

lemma ring_step_state:
  "map_option fst (ring_step due op (m, l)) = map_option fst (ring_step due op (m, l'))"
  by (cases op) (auto split: option.splits)

lemma ring_run_state:
  "map_option fst (ring_run due ops (m, l)) = map_option fst (ring_run due ops (m, l'))"
proof (induction ops arbitrary: m l l')
  case Nil
  show ?case by simp
next
  case (Cons op ops)
  show ?case
  proof (cases "ring_step due op (m, l)")
    case None
    with ring_step_state [of due op m l l'] show ?thesis by simp
  next
    case (Some s)
    obtain m1 l1 where s: "s = (m1, l1)" by (cases s)
    with Some ring_step_state [of due op m l l'] obtain l1' where
      "ring_step due op (m, l') = Some (m1, l1')"
      by (cases "ring_step due op (m, l')") auto
    with Some s Cons.IH [of m1 l1 l1'] show ?thesis by simp
  qed
qed

lemma counter_reachable:
  assumes "ring_idle m"
  shows "\<exists>m' l'. ring_run due (concat (replicate n [Enqueue r, LookAhead, StartMove t, Complete]))
                    (m, no_log) = Some (m', l')
           \<and> ring_idle m' \<and> GetCompletedMoves m' = GetCompletedMoves m + of_nat n"
  using assms
proof (induction n arbitrary: m)
  case 0
  then show ?case by simp
next
  case (Suc n)
  let ?mv = "[Enqueue r, LookAhead, StartMove t, Complete]"
  from Suc.prems have "length [r] \<le> length (ring m)"
    by (auto simp: ring_idle_def split: option.splits)
  from batch [OF Suc.prems this, of due t] obtain m1 l1 where
    1: "ring_run due ?mv (m, no_log) = Some (m1, l1)" "ring_idle m1"
       "completedMoves m1 = completedMoves m + 1"
    by auto
  from Suc.IH [OF 1(2)] obtain m2 l2 where
    2: "ring_run due (concat (replicate n ?mv)) (m1, no_log) = Some (m2, l2)" "ring_idle m2"
       "GetCompletedMoves m2 = GetCompletedMoves m1 + of_nat n"
    by blast
  from 2(1) ring_run_state [of due "concat (replicate n ?mv)" m1 l1 no_log] obtain l2' where
    3: "ring_run due (concat (replicate n ?mv)) (m1, l1) = Some (m2, l2')"
    by (cases "ring_run due (concat (replicate n ?mv)) (m1, l1)") auto
  have "ring_run due (concat (replicate (Suc n) ?mv)) (m, no_log)
          = ring_run due (concat (replicate n ?mv)) (m1, l1)"
    using 1(1) ring_run_append [of due ?mv "concat (replicate n ?mv)" "(m, no_log)"] by simp
  with 1 2 3 show ?case by (auto simp: GetCompletedMoves_def algebra_simps)
qed

text \<open>
  C5 (amended). On a ring at rest, whatever is enqueued, looked ahead, started and
  completed, the requests completed are, in order, the first of the requests accepted (strict
  FIFO order), at most as many descriptors are in flight as the ring has slots, and the
  completed-move counter has grown by exactly one per completed descriptor, modulo \<open>2^32\<close>.
  A batch of moves that fits the ring is accepted whole and completed whole, in the order
  enqueued, and the counter has grown by their number: as a number when that stays
  below \<open>2^32\<close>, as a wrapped 32-bit value otherwise.
\<close>

theorem ring_fifo:
  assumes idle: "ring_idle m"
  shows "(ResetCounters \<notin> set ops \<longrightarrow>
           (\<exists>m' l'. ring_run due ops (m, no_log) = Some (m', l')
              \<and> prefix (completed l') (accepted l')
              \<and> length (accepted l') \<le> length (completed l') + length (ring m)
              \<and> GetCompletedMoves m' = GetCompletedMoves m + of_nat (length (completed l'))))
         \<and> (length ms \<le> length (ring m) \<longrightarrow>
           (\<exists>m'. ring_run due
                    (map Enqueue ms
                       @ concat (replicate (length ms) [LookAhead, StartMove t, Complete]))
                    (m, no_log)
                 = Some (m', \<lparr>accepted = ms, completed = ms\<rparr>)
              \<and> GetCompletedMoves m' = GetCompletedMoves m + of_nat (length ms)
              \<and> (unat (GetCompletedMoves m) + length ms < 2 ^ 32 \<longrightarrow>
                   unat (GetCompletedMoves m') = unat (GetCompletedMoves m) + length ms)))"
proof (intro conjI impI)
  assume nr: "ResetCounters \<notin> set ops"
  from ring_idle_inv [OF idle] obtain g where inv: "ring_inv m no_log g 0 0" ..
  from ring_run_inv [OF inv, of due ops] nr obtain m' l' g' k' f' where
    r: "ring_run due ops (m, no_log) = Some (m', l')" "ring_inv m' l' g' k' f'"
       "length (ring m') = length (ring m)"
       "completedMoves m' + of_nat (length (completed (no_log :: 'a ring_log)))
          = completedMoves m + of_nat (length (completed l'))"
    by blast
  note b = inv_bounds [OF r(2)] and lg = inv_log [OF r(2)]
  from lg(2) have "prefix (completed l') (accepted l')"
    by (metis take_is_prefix)
  moreover from lg(1) b r(3) have "length (accepted l') \<le> length (completed l') + length (ring m)"
    by simp
  moreover from r(4) have
    "GetCompletedMoves m' = GetCompletedMoves m + of_nat (length (completed l'))"
    by (simp add: GetCompletedMoves_def no_log_def)
  ultimately show "\<exists>m' l'. ring_run due ops (m, no_log) = Some (m', l')
      \<and> prefix (completed l') (accepted l')
      \<and> length (accepted l') \<le> length (completed l') + length (ring m)
      \<and> GetCompletedMoves m' = GetCompletedMoves m + of_nat (length (completed l'))"
    using r(1) by blast
next
  assume len: "length ms \<le> length (ring m)"
  from batch [OF idle len, of due t] obtain m' where
    r: "ring_run due
          (map Enqueue ms @ concat (replicate (length ms) [LookAhead, StartMove t, Complete]))
          (m, no_log)
        = Some (m', \<lparr>accepted = ms, completed = ms\<rparr>)"
       "completedMoves m' = completedMoves m + of_nat (length ms)"
    by blast
  have "unat (completedMoves m + of_nat (length ms)) = unat (completedMoves m) + length ms"
    if "unat (completedMoves m) + length ms < 2 ^ 32"
    using that by (simp add: unat_word_ariths unat_of_nat)
  with r show "\<exists>m'. ring_run due
                    (map Enqueue ms
                       @ concat (replicate (length ms) [LookAhead, StartMove t, Complete]))
                    (m, no_log)
                 = Some (m', \<lparr>accepted = ms, completed = ms\<rparr>)
              \<and> GetCompletedMoves m' = GetCompletedMoves m + of_nat (length ms)
              \<and> (unat (GetCompletedMoves m) + length ms < 2 ^ 32 \<longrightarrow>
                   unat (GetCompletedMoves m') = unat (GetCompletedMoves m) + length ms)"
    by (auto simp: GetCompletedMoves_def)
qed

text \<open>
  C5 as stated says that the completed-move counter increases with every completed
  descriptor. With the counter at \<open>0xFFFFFFFF\<close>, completing one more descriptor leaves it
  at 0.
\<close>

theorem completed_counter_wraps:
  "ring_idle wrap_ring
   \<and> GetCompletedMoves wrap_ring = 0xFFFFFFFF
   \<and> map_option (\<lambda>(m', l'). (GetCompletedMoves m', completed l'))
        (ring_run never_due [Enqueue 7, LookAhead, StartMove 0, Complete] (wrap_ring, no_log))
       = Some (0, [7])
   \<and> \<not> GetCompletedMoves wrap_ring < 0"
  by code_simp

theorem ring_fifo_witness:
  "ring_idle empty_ring
   \<and> ResetCounters \<notin> set [Enqueue (7::nat), Enqueue 8, Enqueue 9, LookAhead, StartMove 0, Complete]
   \<and> length [7, 8 :: nat] \<le> length (ring empty_ring)
   \<and> unat (GetCompletedMoves empty_ring) + length [7, 8 :: nat] < 2 ^ 32
   \<and> map_option (\<lambda>(m', l'). (GetCompletedMoves m', l'))
        (ring_run never_due [Enqueue 7, Enqueue 8, Enqueue 9, LookAhead, StartMove 0, Complete]
           (empty_ring, no_log))
       = Some (1, \<lparr>accepted = [7, 8], completed = [7]\<rparr>)
   \<and> map_option (\<lambda>(m', l'). (GetCompletedMoves m', l'))
        (ring_run never_due
           (map Enqueue [7, 8]
              @ concat (replicate (length [7, 8 :: nat]) [LookAhead, StartMove 0, Complete]))
           (empty_ring, no_log))
       = Some (2, \<lparr>accepted = [7, 8], completed = [7, 8]\<rparr>)"
proof -
  have e1: "ring_idle empty_ring" by code_simp
  have e2: "ResetCounters \<notin> set [Enqueue (7::nat), Enqueue 8, Enqueue 9, LookAhead, StartMove 0, Complete]"
    by simp
  have e3: "length [7, 8 :: nat] \<le> length (ring empty_ring)" by (simp add: empty_ring_def)
  have e4: "unat (GetCompletedMoves empty_ring) + length [7, 8 :: nat] < 2 ^ 32"
    by (simp add: empty_ring_def GetCompletedMoves_def)
  have e5: "map_option (\<lambda>(m', l'). (GetCompletedMoves m', l'))
        (ring_run never_due [Enqueue 7, Enqueue 8, Enqueue 9, LookAhead, StartMove 0, Complete]
           (empty_ring, no_log))
       = Some (1, \<lparr>accepted = [7, 8], completed = [7]\<rparr>)"
    by code_simp
  have e6: "map_option (\<lambda>(m', l'). (GetCompletedMoves m', l'))
        (ring_run never_due
           (map Enqueue [7, 8]
              @ concat (replicate (length [7, 8 :: nat]) [LookAhead, StartMove 0, Complete]))
           (empty_ring, no_log))
       = Some (2, \<lparr>accepted = [7, 8], completed = [7, 8]\<rparr>)"
    by code_simp
  note w = ring_fifo [OF e1, of
      "[Enqueue 7, Enqueue 8, Enqueue 9, LookAhead, StartMove 0, Complete]" never_due
      "[7, 8]" 0]
  from w e1 e2 e3 e4 e5 e6 show ?thesis by (intro conjI) assumption+
qed

section \<open>The capacity of the ring\<close>

text \<open>
  C6. \<open>DdaRingLength\<close> is 30 on the SAM4E, SAM4S and SAME70 and 20 otherwise, so between 20
  and 30 in every build; the ring that \<open>Init\<close> allocates has that many slots and keeps that
  many under every sequence of operations, with never more descriptors in flight;
  \<open>StartNextMove\<close> leaves the number of slots as it is.
\<close>

theorem DdaRingLength_bounds:
  "20 \<le> DdaRingLength cfg \<and> DdaRingLength cfg \<le> 30
   \<and> (SAM4E cfg \<or> SAM4S cfg \<or> SAME70 cfg \<longrightarrow> DdaRingLength cfg = 30)
   \<and> (\<not> (SAM4E cfg \<or> SAM4S cfg \<or> SAME70 cfg) \<longrightarrow> DdaRingLength cfg = 20)
   \<and> DdaRingLength_expansion = 20
   \<and> (\<exists>m' l'. ring_run due ops (Init cfg r0, no_log) = Some (m', l')
         \<and> length (ring m') = DdaRingLength cfg
         \<and> length (accepted l') - length (completed l') \<le> DdaRingLength cfg)
   \<and> (StartNextMove Start m t = Some (r, m1) \<longrightarrow> length (ring m1) = length (ring m))"
proof -
  from ring_idle_inv [OF Init_idle] obtain g where
    inv: "ring_inv (Init cfg r0) no_log g 0 0" ..
  from ring_run_inv [OF inv, of due ops] obtain m' l' g' k' f' where
    r: "ring_run due ops (Init cfg r0, no_log) = Some (m', l')" "ring_inv m' l' g' k' f'"
       "length (ring m') = length (ring (Init cfg r0))"
    by blast
  note b = inv_bounds [OF r(2)] and lg = inv_log [OF r(2)]
  from r(3) have len: "length (ring m') = DdaRingLength cfg" by (simp add: Init_def)
  with lg(1) b have "length (accepted l') - length (completed l') \<le> DdaRingLength cfg" by simp
  with r(1) len have run: "\<exists>m' l'. ring_run due ops (Init cfg r0, no_log) = Some (m', l')
         \<and> length (ring m') = DdaRingLength cfg
         \<and> length (accepted l') - length (completed l') \<le> DdaRingLength cfg"
    by blast
  have st: "StartNextMove Start m t = Some (r, m1) \<longrightarrow> length (ring m1) = length (ring m)"
    by (auto simp: StartNextMove_def Let_def split: option.splits if_splits prod.splits)
  from run st show ?thesis
    by (simp add: DdaRingLength_def DdaRingLength_expansion_def)
qed

theorem DdaRingLength_bounds_witness:
  "SAM4E sam4e_build \<and> DdaRingLength sam4e_build = 30
   \<and> \<not> (SAM4E sam3x_build \<or> SAM4S sam3x_build \<or> SAME70 sam3x_build)
   \<and> DdaRingLength sam3x_build = 20
   \<and> StartNextMove (DDA_Start never_due) full_ring 100
        = Some (False, full_ring\<lparr>currentDda := Some 0,
                  ring := [\<lparr>state = executing, request = 7\<rparr>,
                           \<lparr>state = provisional, request = 8\<rparr>]\<rparr>)
   \<and> length (ring full_ring) = 2"
proof -
  have e: "StartNextMove (DDA_Start never_due) full_ring 100
        = Some (False, full_ring\<lparr>currentDda := Some 0,
                  ring := [\<lparr>state = executing, request = 7\<rparr>,
                           \<lparr>state = provisional, request = 8\<rparr>]\<rparr>)"
    by (simp add: StartNextMove_def DDA_Start_def never_due_def full_ring_def)
  from DdaRingLength_bounds [of sam4e_build never_due "[]" "0::nat" "DDA_Start never_due"
      full_ring 100 False "full_ring\<lparr>currentDda := Some 0,
                  ring := [\<lparr>state = executing, request = 7\<rparr>,
                           \<lparr>state = provisional, request = 8\<rparr>]\<rparr>"]
    DdaRingLength_bounds [of sam3x_build never_due "[]" "0::nat" "DDA_Start never_due"
      full_ring 100 False full_ring] e
  show ?thesis
    by (simp add: sam4e_build_def sam3x_build_def full_ring_def)
qed

end
